theory Spec2Isabelle
  imports Complex_Main "HOL-Library.Word"
begin

unbundle bit_operations_syntax

section \<open>JavaScript numbers as binary64 bit patterns\<close>

text \<open>
  A JavaScript number is an IEEE-754 binary64 value.  The source reads the encoding itself
  (\<open>new Float64Array([positiveNumber])\<close> viewed through a \<open>Uint8Array\<close>), so a number is
  modelled by its 64-bit pattern: bit 63 is the sign, bits 52 to 62 the biased exponent,
  bits 0 to 51 the mantissa.
\<close>

type_synonym float64 = "64 word"

text \<open>
  The byte view of the buffer (\<open>new Uint8Array(float64Array.buffer)\<close>) on a little-endian
  platform, which is what the source assumes: index 0 is the least significant byte.
\<close>

definition uint8Array_of :: "float64 \<Rightarrow> 8 word list" where
  "uint8Array_of w =
     [ucast w, ucast (drop_bit 8 w), ucast (drop_bit 16 w), ucast (drop_bit 24 w),
      ucast (drop_bit 32 w), ucast (drop_bit 40 w), ucast (drop_bit 48 w),
      ucast (drop_bit 56 w)]"

text \<open>
  JavaScript's bitwise operators convert their operands to 32-bit signed integers and
  return one: \<open>&\<close> is \<open>AND\<close> on \<open>32 word\<close>, \<open><<\<close> is \<open>push_bit\<close>, \<open>>>\<close> is the
  sign-propagating \<open>signed_drop_bit\<close>, and the result is read back with \<open>sint\<close>.
\<close>

definition js_and :: "8 word \<Rightarrow> 32 word \<Rightarrow> 32 word" where
  "js_and b k = ucast b AND k"

record FloatBits =
  exponent :: int
  mantissa :: int

text \<open>
  \<open>_decodeFloat\<close> (source lines 12 to 31).  The sums and products are JavaScript number
  arithmetic on integers below \<open>2 ^ 53\<close>, where it is exact, and \<open>Math.pow(1 << 8, k)\<close> is
  \<open>256 ^ k\<close>.
\<close>

definition decodeFloat :: "float64 \<Rightarrow> FloatBits" where
  "decodeFloat positiveNumber =
     (let uint8Array = uint8Array_of positiveNumber;
          e = sint (push_bit 4 (js_and (uint8Array ! 7) 0x7F))
            + sint (signed_drop_bit 4 (js_and (uint8Array ! 6) 0xF0));
          m = sint (js_and (uint8Array ! 6) 0x0F) * 256 ^ 6
            + sint (js_and (uint8Array ! 5) 0xFF) * 256 ^ 5
            + sint (js_and (uint8Array ! 4) 0xFF) * 256 ^ 4
            + sint (js_and (uint8Array ! 3) 0xFF) * 256 ^ 3
            + sint (js_and (uint8Array ! 2) 0xFF) * 256 ^ 2
            + sint (js_and (uint8Array ! 1) 0xFF) * 256 ^ 1
            + sint (js_and (uint8Array ! 0) 0xFF) * 256 ^ 0
      in \<lparr>exponent = e, mantissa = m\<rparr>)"

text \<open>
  The fields of the binary64 format, and the tests and operators of JavaScript the source
  applies to numbers: \<open>Number.isNaN\<close>, \<open>Number.isFinite\<close>, the constants
  \<open>Infinity\<close>, \<open>-Infinity\<close> and \<open>NaN\<close>, unary minus (which flips the sign bit),
  \<open>value < 0\<close> and \<open>Object.is(-0, value)\<close>.  Strict equality with an infinity is
  equality of bit patterns.
\<close>

definition sign_bit :: "float64 \<Rightarrow> bool" where
  "sign_bit w = bit w 63"

definition biased_exponent :: "float64 \<Rightarrow> nat" where
  "biased_exponent w = unat (take_bit 11 (drop_bit 52 w))"

definition fraction_bits :: "float64 \<Rightarrow> nat" where
  "fraction_bits w = unat (take_bit 52 w)"

definition isNaN :: "float64 \<Rightarrow> bool" where
  "isNaN w \<longleftrightarrow> biased_exponent w = 2047 \<and> fraction_bits w \<noteq> 0"

definition isFinite :: "float64 \<Rightarrow> bool" where
  "isFinite w \<longleftrightarrow> biased_exponent w \<noteq> 2047"

definition Infinity :: float64 where
  "Infinity = 0x7FF0000000000000"

definition NaN :: float64 where
  "NaN = 0x7FF8000000000000"

definition minus_zero :: float64 where
  "minus_zero = 0x8000000000000000"

definition negate :: "float64 \<Rightarrow> float64" where
  "negate w = w XOR 0x8000000000000000"

definition less_than_zero :: "float64 \<Rightarrow> bool" where
  "less_than_zero w \<longleftrightarrow> sign_bit w \<and> \<not> isNaN w \<and> w \<noteq> minus_zero"

text \<open>
  The real number a finite bit pattern denotes under IEEE-754 binary64: the glossary's
  \<open>exact decimal value\<close>.  It is stated from the format, not from the code, and is what
  the code's results are compared with.
\<close>

definition binary64_value :: "float64 \<Rightarrow> real" where
  "binary64_value w =
     (if sign_bit w then - 1 else 1) *
     (if biased_exponent w = 0
      then real (fraction_bits w) / 2 ^ 52 * 2 powi (- 1022)
      else (1 + real (fraction_bits w) / 2 ^ 52) * 2 powi (int (biased_exponent w) - 1023))"

section \<open>Exact decimals\<close>

text \<open>
  Modelled from the spec: the arbitrary-precision decimal type of the external library
  \<open>decimal.js\<close> (\<open>ExactDecimal\<close> in the spec), which is not part of the repository.
  A decimal is an integer coefficient and a count of decimal places; it denotes
  \<open>coefficient / 10 ^ scale\<close>.  The operations are the ones the spec lists for the
  abstraction: construction from an integer, exact division by a power of two, addition,
  multiplication, exact powers of two, exact equality and plain-notation rendering.
  The source sets the library's working precision to 10000 significant digits
  (\<open>Decimal.set({ precision: 10000 })\<close>, source lines 8 to 10); every operation below is
  exact, and \<open>getExactDecimal_within_precision\<close> shows that the
  coefficients the code computes stay far below that bound.
\<close>

definition precision :: nat where
  "precision = 10000"

record Decimal =
  coefficient :: int
  scale :: nat

definition dec_value :: "Decimal \<Rightarrow> real" where
  "dec_value x = real_of_int (coefficient x) / 10 ^ scale x"

definition Decimal_of_int :: "int \<Rightarrow> Decimal" where
  "Decimal_of_int n = \<lparr>coefficient = n, scale = 0\<rparr>"

text \<open>\<open>x.dividedBy(Math.pow(2, k))\<close>: \<open>c / 10 ^ s / 2 ^ k = c * 5 ^ k / 10 ^ (s + k)\<close>.\<close>

definition dec_dividedBy_pow2 :: "Decimal \<Rightarrow> nat \<Rightarrow> Decimal" where
  "dec_dividedBy_pow2 x k = \<lparr>coefficient = coefficient x * 5 ^ k, scale = scale x + k\<rparr>"

definition dec_plus :: "Decimal \<Rightarrow> Decimal \<Rightarrow> Decimal" where
  "dec_plus x y =
     (let s = max (scale x) (scale y)
      in \<lparr>coefficient = coefficient x * 10 ^ (s - scale x) + coefficient y * 10 ^ (s - scale y),
          scale = s\<rparr>)"

definition dec_times :: "Decimal \<Rightarrow> Decimal \<Rightarrow> Decimal" where
  "dec_times x y = \<lparr>coefficient = coefficient x * coefficient y, scale = scale x + scale y\<rparr>"

text \<open>\<open>new Decimal(2).toPower(n)\<close> for an integer \<open>n\<close>: \<open>2 ^ (- k) = 5 ^ k / 10 ^ k\<close>.\<close>

definition dec_two_toPower :: "int \<Rightarrow> Decimal" where
  "dec_two_toPower n =
     (if 0 \<le> n then \<lparr>coefficient = 2 ^ nat n, scale = 0\<rparr>
      else \<lparr>coefficient = 5 ^ nat (- n), scale = nat (- n)\<rparr>)"

definition dec_equals :: "Decimal \<Rightarrow> Decimal \<Rightarrow> bool" where
  "dec_equals x y \<longleftrightarrow> coefficient x * 10 ^ scale y = coefficient y * 10 ^ scale x"

subsection \<open>Rendering: \<open>toFixed()\<close>\<close>

definition digit_char :: "nat \<Rightarrow> char" where
  "digit_char d = ''0123456789'' ! d"

fun digits_of_nat :: "nat \<Rightarrow> string" where
  "digits_of_nat n =
     (if n < 10 then [digit_char n] else digits_of_nat (n div 10) @ [digit_char (n mod 10)])"

declare digits_of_nat.simps [simp del]

fun fixed_digits :: "nat \<Rightarrow> nat \<Rightarrow> string" where
  "fixed_digits 0 f = []"
| "fixed_digits (Suc k) f = fixed_digits k (f div 10) @ [digit_char (f mod 10)]"

definition strip_trailing_zeros :: "string \<Rightarrow> string" where
  "strip_trailing_zeros ds = rev (dropWhile (\<lambda>c. c = CHR ''0'') (rev ds))"

text \<open>
  Modelled from the spec: \<open>toFixed()\<close> with no argument renders the value in plain
  (non-exponential) notation with the minimal digits: the integer part without leading
  zeros, then, when the fractional part is not zero, a point and the fractional digits
  without trailing zeros.
\<close>

definition dec_toFixed :: "Decimal \<Rightarrow> string" where
  "dec_toFixed x =
     (let a = nat \<bar>coefficient x\<bar>;
          ip = digits_of_nat (a div 10 ^ scale x);
          fp = strip_trailing_zeros (fixed_digits (scale x) (a mod 10 ^ scale x))
      in (if coefficient x < 0 then ''-'' else []) @ ip @ (if fp = [] then [] else CHR ''.'' # fp))"

subsection \<open>Reading a literal: \<open>new Decimal(string)\<close>\<close>

definition is_digit :: "char \<Rightarrow> bool" where
  "is_digit c \<longleftrightarrow> c \<in> set ''0123456789''"

definition digit_val :: "char \<Rightarrow> nat" where
  "digit_val c = of_char c - 48"

definition nat_of_digits :: "string \<Rightarrow> nat" where
  "nat_of_digits ds = foldl (\<lambda>a c. 10 * a + digit_val c) 0 ds"

text \<open>The exponent part of a literal, after its \<open>e\<close> or \<open>E\<close>: an optional sign and digits.\<close>

definition exponent_of_string :: "string \<Rightarrow> int" where
  "exponent_of_string t =
     (case t of
        [] \<Rightarrow> 0
      | c # u \<Rightarrow>
          if c = CHR ''-'' then - int (nat_of_digits u)
          else if c = CHR ''+'' then int (nat_of_digits u)
          else int (nat_of_digits t))"

text \<open>
  Modelled from the spec: the exact decimal an unsigned literal
  \<open>digits [. digits] [(e|E) [sign] digits]\<close> denotes (conversion step 2 of \<open>parse\<close>:
  lossless by construction).  The source applies it only to strings that passed the
  regular expression, with the sign removed.
\<close>

definition Decimal_of_string :: "string \<Rightarrow> Decimal" where
  "Decimal_of_string s =
     (let ip = takeWhile is_digit s;
          r1 = dropWhile is_digit s;
          fp = (case r1 of [] \<Rightarrow> [] | c # t \<Rightarrow> if c = CHR ''.'' then takeWhile is_digit t else []);
          r2 = (case r1 of [] \<Rightarrow> [] | c # t \<Rightarrow> if c = CHR ''.'' then dropWhile is_digit t else r1);
          ex = exponent_of_string (tl r2);
          n = int (nat_of_digits (ip @ fp));
          k = ex - int (length fp)
      in if 0 \<le> k then \<lparr>coefficient = n * 10 ^ nat k, scale = 0\<rparr>
         else \<lparr>coefficient = n, scale = nat (- k)\<rparr>)"

subsection \<open>Rounding to a number: \<open>toNumber()\<close>\<close>

fun bit_length :: "nat \<Rightarrow> nat" where
  "bit_length n = (if n = 0 then 0 else Suc (bit_length (n div 2)))"

declare bit_length.simps [simp del]

text \<open>
  The integer \<open>e\<close> with \<open>2 ^ e \<le> n / d < 2 ^ (e + 1)\<close>, for positive \<open>n\<close> and \<open>d\<close>:
  the difference of the bit lengths, or one less.
\<close>

definition floor_log2 :: "nat \<Rightarrow> nat \<Rightarrow> int" where
  "floor_log2 n d =
     (let e = int (bit_length n) - int (bit_length d)
      in if (if 0 \<le> e then d * 2 ^ nat e \<le> n else d \<le> n * 2 ^ nat (- e)) then e else e - 1)"

text \<open>The integer nearest to \<open>n / d\<close>, a tie going to the even one.\<close>

definition round_half_even :: "nat \<Rightarrow> nat \<Rightarrow> nat" where
  "round_half_even n d =
     (let q = n div d; r = n mod d
      in if 2 * r < d then q else if d < 2 * r then q + 1 else if even q then q else q + 1)"

text \<open>
  Modelled from the spec: conversion step 3 of \<open>parse\<close>, rounding an exact decimal to the
  nearest binary64 value (round to nearest, ties to even), which \<open>decimal.js\<close> and the
  JavaScript engine do outside the repository.  With \<open>e\<close> the binary exponent of the
  value, not below that of the subnormals, the significand is the value scaled by
  \<open>2 ^ (52 - e)\<close> and rounded to an integer; a carry out of the significand moves into
  the exponent field, and a result at or beyond the encoding of infinity is infinity.
\<close>

definition dec_toNumber :: "Decimal \<Rightarrow> float64" where
  "dec_toNumber x =
     (let n = nat \<bar>coefficient x\<bar>;
          d = 10 ^ scale x;
          e = max (floor_log2 n d) (- 1022);
          m = (if e \<le> 52 then round_half_even (n * 2 ^ nat (52 - e)) d
               else round_half_even n (d * 2 ^ nat (e - 52)));
          bits = nat (e + 1022) * 2 ^ 52 + m;
          r = (if n = 0 then 0 else if 2047 * 2 ^ 52 \<le> bits then Infinity else of_nat bits)
      in if coefficient x < 0 then negate r else r)"

section \<open>Regular expressions\<close>

text \<open>
  The literal grammar of \<open>parse\<close> is a regular expression anchored at both ends and
  tested with \<open>RegExp.prototype.test\<close>.  Regular expressions are modelled with their
  language, and the test by Brzozowski derivatives.
\<close>

datatype regex =
    Void
  | Eps
  | Chars "char list"
  | Seq regex regex
  | Alt regex regex
  | Star regex

definition Opt :: "regex \<Rightarrow> regex" where
  "Opt r = Alt r Eps"

definition Plus :: "regex \<Rightarrow> regex" where
  "Plus r = Seq r (Star r)"

fun nullable :: "regex \<Rightarrow> bool" where
  "nullable Void = False"
| "nullable Eps = True"
| "nullable (Chars cs) = False"
| "nullable (Seq r s) = (nullable r \<and> nullable s)"
| "nullable (Alt r s) = (nullable r \<or> nullable s)"
| "nullable (Star r) = True"

fun deriv :: "char \<Rightarrow> regex \<Rightarrow> regex" where
  "deriv c Void = Void"
| "deriv c Eps = Void"
| "deriv c (Chars cs) = (if c \<in> set cs then Eps else Void)"
| "deriv c (Seq r s) =
     (if nullable r then Alt (Seq (deriv c r) s) (deriv c s) else Seq (deriv c r) s)"
| "deriv c (Alt r s) = Alt (deriv c r) (deriv c s)"
| "deriv c (Star r) = Seq (deriv c r) (Star r)"

fun regex_test :: "regex \<Rightarrow> string \<Rightarrow> bool" where
  "regex_test r [] = nullable r"
| "regex_test r (c # cs) = regex_test (deriv c r) cs"

inductive_set star :: "string set \<Rightarrow> string set" for A :: "string set" where
  star_nil: "[] \<in> star A"
| star_app: "u \<in> A \<Longrightarrow> v \<in> star A \<Longrightarrow> u @ v \<in> star A"

fun lang :: "regex \<Rightarrow> string set" where
  "lang Void = {}"
| "lang Eps = {[]}"
| "lang (Chars cs) = {[c] | c. c \<in> set cs}"
| "lang (Seq r s) = {u @ v | u v. u \<in> lang r \<and> v \<in> lang s}"
| "lang (Alt r s) = lang r \<union> lang s"
| "lang (Star r) = star (lang r)"

text \<open>\<open>/^-?(0|([1-9][0-9]*))(\\.[0-9]+)?([eE][+-]?[0-9]+)?$/\<close> (source line 104).\<close>

definition numeric_regex :: regex where
  "numeric_regex =
     Seq (Opt (Chars ''-''))
    (Seq (Alt (Chars ''0'') (Seq (Chars ''123456789'') (Star (Chars ''0123456789''))))
    (Seq (Opt (Seq (Chars ''.'') (Plus (Chars ''0123456789''))))
         (Opt (Seq (Chars ''eE'') (Seq (Opt (Chars ''+-'')) (Plus (Chars ''0123456789'')))))))"

text \<open>
  The decimal-literal grammar in the words of the spec (section 4.4): an optional leading
  \<open>-\<close>, an integer part that is a single \<open>0\<close> or a non-zero digit followed by digits, an
  optional \<open>.\<close> followed by one or more digits, and an optional exponent: \<open>e\<close> or \<open>E\<close>, an
  optional sign, one or more digits.  It is compared with the regular expression of the
  source below.
\<close>

definition integer_part :: "string \<Rightarrow> bool" where
  "integer_part ip \<longleftrightarrow>
     ip = ''0'' \<or> (\<exists>d ds. ip = d # ds \<and> d \<in> set ''123456789'' \<and> list_all is_digit ds)"

definition fraction_part :: "string \<Rightarrow> bool" where
  "fraction_part fp \<longleftrightarrow> (\<exists>ds. fp = CHR ''.'' # ds \<and> ds \<noteq> [] \<and> list_all is_digit ds)"

definition exponent_part :: "string \<Rightarrow> bool" where
  "exponent_part ex \<longleftrightarrow>
     (\<exists>m sg ds. ex = m # sg @ ds \<and> (m = CHR ''e'' \<or> m = CHR ''E'')
        \<and> (sg = [] \<or> sg = ''+'' \<or> sg = ''-'') \<and> ds \<noteq> [] \<and> list_all is_digit ds)"

definition decimal_literal :: "string \<Rightarrow> bool" where
  "decimal_literal s \<longleftrightarrow>
     (\<exists>sg ip fp ex. s = sg @ ip @ fp @ ex \<and> (sg = [] \<or> sg = ''-'') \<and> integer_part ip
        \<and> (fp = [] \<or> fraction_part fp) \<and> (ex = [] \<or> exponent_part ex))"

section \<open>The program\<close>

text \<open>
  The lines of \<open>_getExactDecimal\<close> that follow the decoding (source lines 36 to 45), as
  functions of the decoded fields: the constants \<open>fraction\<close> and \<open>power\<close>, and their
  product, which is the result.
\<close>

definition fraction_of_bits :: "FloatBits \<Rightarrow> Decimal" where
  "fraction_of_bits fb =
     dec_plus (dec_dividedBy_pow2 (Decimal_of_int (mantissa fb)) 52)
       (Decimal_of_int (if exponent fb = 0 then 0 else 1))"

definition power_of_bits :: "FloatBits \<Rightarrow> Decimal" where
  "power_of_bits fb = dec_two_toPower ((if exponent fb = 0 then 1 else exponent fb) - 1023)"

definition exactDecimal_of_bits :: "FloatBits \<Rightarrow> Decimal" where
  "exactDecimal_of_bits fb = dec_times (fraction_of_bits fb) (power_of_bits fb)"

text \<open>\<open>_getExactDecimal\<close> (source lines 33 to 46).\<close>

definition getExactDecimal :: "float64 \<Rightarrow> Decimal" where
  "getExactDecimal positiveNumber = exactDecimal_of_bits (decodeFloat positiveNumber)"

text \<open>
  The values a caller can pass, with what \<open>typeof\<close> says of each.  Both entry points take
  rest parameters, so they receive a list of values.
\<close>

datatype jsvalue =
    JSNumber float64
  | JSString string
  | JSBoolean bool
  | JSBigInt int
  | JSUndefined
  | JSNull
  | JSSymbol
  | JSObject
  | JSFunction

fun typeof :: "jsvalue \<Rightarrow> string" where
  "typeof (JSNumber v) = ''number''"
| "typeof (JSString s) = ''string''"
| "typeof (JSBoolean b) = ''boolean''"
| "typeof (JSBigInt i) = ''bigint''"
| "typeof JSUndefined = ''undefined''"
| "typeof JSNull = ''object''"
| "typeof JSSymbol = ''symbol''"
| "typeof JSObject = ''object''"
| "typeof JSFunction = ''function''"

text \<open>
  Every failure of the source is \<open>throw Error(message)\<close>.  The constructors are the error
  kinds of the spec, one for each message, and carry what the message interpolates: the
  number of parameters received, the \<open>typeof\<close> of the argument, the rejected string, the
  unsigned literal, and for the loss of precision the literal and the closest value.
\<close>

datatype error =
    ArityError nat
  | TypeError string
  | SyntaxError string
  | MagnitudeError string
  | PrecisionLossError string string

text \<open>\<open>stringify\<close> (source lines 48 to 79).\<close>

definition stringify :: "jsvalue list \<Rightarrow> error + string" where
  "stringify params =
     (if length params \<noteq> 1 then Inl (ArityError (length params))
      else case params ! 0 of
        JSNumber v \<Rightarrow>
          if isNaN v then Inr ''NaN''
          else if v = Infinity then Inr ''Infinity''
          else if v = negate Infinity then Inr ''-Infinity''
          else
            let isNegative = (less_than_zero v \<or> v = minus_zero);
                positiveNumber = (if isNegative then negate v else v)
            in Inr ((if isNegative then ''-'' else []) @ dec_toFixed (getExactDecimal positiveNumber))
      | other \<Rightarrow> Inl (TypeError (typeof other)))"

text \<open>\<open>parse\<close> (source lines 81 to 129).\<close>

definition startsWith_minus :: "string \<Rightarrow> bool" where
  "startsWith_minus s = (case s of [] \<Rightarrow> False | c # t \<Rightarrow> c = CHR ''-'')"

definition parse :: "jsvalue list \<Rightarrow> error + float64" where
  "parse params =
     (if length params \<noteq> 1 then Inl (ArityError (length params))
      else case params ! 0 of
        JSString v \<Rightarrow>
          if v = ''NaN'' then Inr NaN
          else if v = ''Infinity'' then Inr Infinity
          else if v = ''-Infinity'' then Inr (negate Infinity)
          else if \<not> regex_test numeric_regex v then Inl (SyntaxError v)
          else
            let isNegative = startsWith_minus v;
                positiveNumericString = (if isNegative then drop 1 v else v);
                positiveDecimal = Decimal_of_string positiveNumericString;
                positiveNumber = dec_toNumber positiveDecimal
            in if \<not> isFinite positiveNumber then Inl (MagnitudeError positiveNumericString)
               else
                 let positiveDecimal2 = getExactDecimal positiveNumber
                 in if \<not> dec_equals positiveDecimal2 positiveDecimal
                    then Inl (PrecisionLossError positiveNumericString (dec_toFixed positiveDecimal2))
                    else Inr (if isNegative then negate positiveNumber else positiveNumber)
      | other \<Rightarrow> Inl (TypeError (typeof other)))"

section \<open>What a literal denotes\<close>

text \<open>
  The terms in which the spec states the guarantee of \<open>parse\<close>: the unsigned part of a
  literal, the real number a literal denotes (its sign applied to the exact decimal of the
  unsigned part), and whether a real number is the value of some finite binary64 number.
\<close>

definition unsigned_literal :: "string \<Rightarrow> string" where
  "unsigned_literal s = (if startsWith_minus s then drop 1 s else s)"

definition literal_value :: "string \<Rightarrow> real" where
  "literal_value s =
     (if startsWith_minus s then - dec_value (Decimal_of_string (unsigned_literal s))
      else dec_value (Decimal_of_string (unsigned_literal s)))"

definition representable :: "real \<Rightarrow> bool" where
  "representable r \<longleftrightarrow> (\<exists>w. isFinite w \<and> binary64_value w = r)"

section \<open>The bit decoder\<close>

lemma sint_small: "uint (x :: 32 word) < 2 ^ 31 \<Longrightarrow> sint x = uint x"
proof -
  assume lt: "uint x < 2 ^ 31"
  have "- (2 ^ 31) \<le> (0::int)" by simp
  then have "- (2 ^ 31) \<le> uint x" using uint_ge_0 [of x] by (rule order_trans)
  then have "signed_take_bit 31 (uint x) = uint x"
    using lt by (rule signed_take_bit_int_eq_self)
  then show ?thesis by (simp add: sint_uint)
qed

lemma uint_byte_lt: "uint (b :: 8 word) < 256"
  using uint_bounded [of b] by simp

lemma uint_js_and: "uint (js_and b k) = uint b AND uint k"
proof -
  have "take_bit 32 (uint b) = uint b"
    using uint_byte_lt [of b] by (simp add: take_bit_int_eq_self)
  then show ?thesis by (simp add: js_and_def uint_and unsigned_ucast_eq)
qed

lemma int_and_mask: "(k :: int) AND (2 ^ n - 1) = take_bit n k"
  by (simp flip: mask_eq_exp_minus_1 take_bit_eq_mask)

lemma take_bit_lt: "n \<le> m \<Longrightarrow> take_bit n (k :: int) < 2 ^ m"
proof -
  assume "n \<le> m"
  then have "(2 :: int) ^ n \<le> 2 ^ m" by simp
  moreover have "take_bit n k < 2 ^ n" by simp
  ultimately show ?thesis by (rule less_le_trans [rotated])
qed

lemma and255: "sint (js_and b 0xFF) = uint b"
proof -
  have "uint (js_and b 0xFF) = take_bit 8 (uint b)"
    using int_and_mask [of "uint b" 8] by (simp add: uint_js_and)
  then have u: "uint (js_and b 0xFF) = uint b"
    using uint_byte_lt [of b] by (simp add: take_bit_int_eq_self)
  show ?thesis using sint_small [of "js_and b 0xFF"] u uint_byte_lt [of b] by simp
qed

lemma and15: "sint (js_and b 0x0F) = take_bit 4 (uint b)"
proof -
  have u: "uint (js_and b 0x0F) = take_bit 4 (uint b)"
    using int_and_mask [of "uint b" 4] by (simp add: uint_js_and)
  show ?thesis
    using sint_small [of "js_and b 0x0F"] take_bit_lt [of 4 31 "uint b"] by (simp add: u)
qed

lemma e_hi: "sint (push_bit 4 (js_and b 0x7F)) = push_bit 4 (take_bit 7 (uint b))"
proof -
  have u: "uint (js_and b 0x7F) = take_bit 7 (uint b)"
    using int_and_mask [of "uint b" 7] by (simp add: uint_js_and)
  have "push_bit 4 (take_bit 7 (uint b)) = take_bit 11 (push_bit 4 (uint b))"
    by (simp add: take_bit_push_bit)
  then have lt: "push_bit 4 (take_bit 7 (uint b)) < 2 ^ 31"
    and lt': "push_bit 4 (take_bit 7 (uint b)) < 2 ^ 32"
    using take_bit_lt [of 11 31 "push_bit 4 (uint b)"] take_bit_lt [of 11 32 "push_bit 4 (uint b)"]
    by simp_all
  have ge: "0 \<le> push_bit 4 (take_bit 7 (uint b))" by simp
  have "uint (push_bit 4 (js_and b 0x7F)) = take_bit 32 (push_bit 4 (take_bit 7 (uint b)))"
    by (simp only: unsigned_push_bit_eq u) simp
  also have "\<dots> = push_bit 4 (take_bit 7 (uint b))"
    using ge lt' by (rule take_bit_int_eq_self)
  finally have p: "uint (push_bit 4 (js_and b 0x7F)) = push_bit 4 (take_bit 7 (uint b))" .
  show ?thesis using sint_small [of "push_bit 4 (js_and b 0x7F)"] lt by (simp only: p)
qed

lemma byte_k: "uint (ucast (drop_bit k (w :: 64 word)) :: 8 word) = take_bit 8 (drop_bit k (uint w))"
  by (simp only: unsigned_ucast_eq unsigned_drop_bit_eq take_bit_int_eq_self [OF uint_ge_0 uint_bounded]) simp

lemma e_lo: "sint (signed_drop_bit 4 (js_and b 0xF0)) = drop_bit 4 (uint b)"
proof -
  have u: "uint (js_and b 0xF0) = uint b AND 240"
    by (simp add: uint_js_and)
  have s: "sint (js_and b 0xF0) = uint b AND 240"
    using sint_small [of "js_and b 0xF0"] AND_upper2'' [of 240 "2 ^ 31" "uint b"] u by simp
  have "drop_bit 4 (uint b AND 240) = drop_bit 4 (uint b) AND 15"
    by simp
  also have "\<dots> = take_bit 4 (drop_bit 4 (uint b))"
    using int_and_mask [of "drop_bit 4 (uint b)" 4] by simp
  also have "\<dots> = drop_bit 4 (take_bit 8 (uint b))"
    by (simp add: drop_bit_take_bit)
  also have "\<dots> = drop_bit 4 (uint b)"
    using uint_byte_lt [of b] by (simp add: take_bit_int_eq_self)
  finally show ?thesis by (simp add: sint_signed_drop_bit_eq s)
qed

lemma take_bit_split: "take_bit (a + b) (n :: int) = take_bit a n + push_bit a (take_bit b (drop_bit a n))"
  using bits_ident [of a "take_bit (a + b) n"] by (simp add: drop_bit_take_bit ac_simps min_def)

lemma decodeFloat_exponent: "exponent (decodeFloat w) = uint (take_bit 11 (drop_bit 52 w))"
proof -
  define c where "c = drop_bit 52 (uint w)"
  have "uint (take_bit 11 (drop_bit 52 w)) = take_bit 11 c"
    unfolding c_def
    by (simp only: unsigned_take_bit_eq unsigned_drop_bit_eq take_bit_int_eq_self [OF uint_ge_0 uint_bounded])
  also have "\<dots> = take_bit 4 c + push_bit 4 (take_bit 7 (drop_bit 4 c))"
    using take_bit_split [of 4 7 c] by simp
  finally have r: "uint (take_bit 11 (drop_bit 52 w)) = take_bit 4 c + push_bit 4 (take_bit 7 (drop_bit 4 c))" .
  have "exponent (decodeFloat w) =
      push_bit 4 (take_bit 7 (take_bit 8 (drop_bit 56 (uint w)))) + drop_bit 4 (take_bit 8 (drop_bit 48 (uint w)))"
    by (simp add: decodeFloat_def uint8Array_of_def e_hi e_lo byte_k)
  also have "\<dots> = push_bit 4 (take_bit 7 (drop_bit 4 c)) + take_bit 4 c"
    by (simp add: c_def drop_bit_take_bit)
  finally show ?thesis using r by simp
qed

lemma decodeFloat_mantissa: "mantissa (decodeFloat w) = uint (take_bit 52 w)"
proof -
  define n where "n = uint w"
  have r: "uint (take_bit 52 w) = take_bit 52 n"
    unfolding n_def
    by (simp only: unsigned_take_bit_eq take_bit_int_eq_self [OF uint_ge_0 uint_bounded])
  have b0: "uint (ucast w :: 8 word) = take_bit 8 n"
    using byte_k [of 0 w] by (simp add: n_def)
  have m: "mantissa (decodeFloat w) =
      push_bit 48 (take_bit 4 (drop_bit 48 n)) + push_bit 40 (take_bit 8 (drop_bit 40 n))
      + push_bit 32 (take_bit 8 (drop_bit 32 n)) + push_bit 24 (take_bit 8 (drop_bit 24 n))
      + push_bit 16 (take_bit 8 (drop_bit 16 n)) + push_bit 8 (take_bit 8 (drop_bit 8 n))
      + take_bit 8 n"
    by (simp add: decodeFloat_def uint8Array_of_def and255 and15 byte_k b0 push_bit_eq_mult flip: n_def)
  have "take_bit 52 n = take_bit 8 n + push_bit 8 (take_bit 44 (drop_bit 8 n))"
    using take_bit_split [of 8 44 n] by simp
  also have "take_bit 44 (drop_bit 8 n) = take_bit 8 (drop_bit 8 n) + push_bit 8 (take_bit 36 (drop_bit 16 n))"
    using take_bit_split [of 8 36 "drop_bit 8 n"] by simp
  also have "take_bit 36 (drop_bit 16 n) = take_bit 8 (drop_bit 16 n) + push_bit 8 (take_bit 28 (drop_bit 24 n))"
    using take_bit_split [of 8 28 "drop_bit 16 n"] by simp
  also have "take_bit 28 (drop_bit 24 n) = take_bit 8 (drop_bit 24 n) + push_bit 8 (take_bit 20 (drop_bit 32 n))"
    using take_bit_split [of 8 20 "drop_bit 24 n"] by simp
  also have "take_bit 20 (drop_bit 32 n) = take_bit 8 (drop_bit 32 n) + push_bit 8 (take_bit 12 (drop_bit 40 n))"
    using take_bit_split [of 8 12 "drop_bit 32 n"] by simp
  also have "take_bit 12 (drop_bit 40 n) = take_bit 8 (drop_bit 40 n) + push_bit 8 (take_bit 4 (drop_bit 48 n))"
    using take_bit_split [of 8 4 "drop_bit 40 n"] by simp
  finally have "take_bit 52 n = mantissa (decodeFloat w)"
    unfolding m by (simp add: push_bit_add)
  then show ?thesis using r by simp
qed

text \<open>
  C5: \<open>_decodeFloat\<close> returns as exponent the bits 52 to 62 of the encoding, read as an
  unsigned 11-bit integer, and as mantissa the bits 0 to 51, read as an unsigned 52-bit
  integer: all 52 bits, nothing is truncated.  This holds for every bit pattern, so in
  particular for every non-negative finite value.
\<close>

theorem decodeFloat_fields:
  "exponent (decodeFloat v) = uint (take_bit 11 (drop_bit 52 v)) \<and>
   mantissa (decodeFloat v) = uint (take_bit 52 v)"
  using decodeFloat_exponent [of v] decodeFloat_mantissa [of v] by simp

section \<open>Fields, sign and exact decimal arithmetic\<close>

lemma decodeFloat_eq:
  "decodeFloat w = \<lparr>exponent = int (biased_exponent w), mantissa = int (fraction_bits w)\<rparr>"
  using decodeFloat_exponent [of w] decodeFloat_mantissa [of w]
  by (simp add: biased_exponent_def fraction_bits_def)

lemma biased_exponent_lt: "biased_exponent w < 2048"
proof -
  have "unat (take_bit 11 (drop_bit 52 w)) < 2 ^ 11"
    using take_bit_nat_less_exp [of 11 "unat (drop_bit 52 w)"]
    by (simp only: unsigned_take_bit_eq)
  then show ?thesis by (simp add: biased_exponent_def)
qed

lemma fraction_bits_lt: "fraction_bits w < 2 ^ 52"
proof -
  have "unat (take_bit 52 w) < 2 ^ 52"
    using take_bit_nat_less_exp [of 52 "unat w"]
    by (simp only: unsigned_take_bit_eq)
  then show ?thesis by (simp add: fraction_bits_def)
qed

lemma sign_bit_negate: "sign_bit (negate w) = (\<not> sign_bit w)"
proof -
  have "bit (0x8000000000000000 :: 64 word) 63" by simp
  then show ?thesis by (simp add: sign_bit_def negate_def bit_xor_iff)
qed

lemma top_bit_only: "bit (0x8000000000000000 :: 64 word) n \<longleftrightarrow> n = 63"
proof -
  have "(0x8000000000000000 :: 64 word) = push_bit 63 1" by simp
  then show ?thesis by (simp only: bit_push_bit_iff) (auto simp add: bit_simps)
qed

lemma fraction_bits_negate: "fraction_bits (negate w) = fraction_bits w"
proof -
  have "take_bit 52 (negate w) = take_bit 52 w"
    by (rule bit_word_eqI) (auto simp add: negate_def bit_simps top_bit_only)
  then show ?thesis by (simp add: fraction_bits_def)
qed

lemma biased_exponent_negate: "biased_exponent (negate w) = biased_exponent w"
proof -
  have "take_bit 11 (drop_bit 52 (negate w)) = take_bit 11 (drop_bit 52 w)"
    by (rule bit_word_eqI) (auto simp add: negate_def bit_simps top_bit_only)
  then show ?thesis by (simp add: biased_exponent_def)
qed

lemma negate_negate: "negate (negate w) = w"
  by (simp add: negate_def xor.assoc)

lemma dec_value_of_int: "dec_value (Decimal_of_int n) = real_of_int n"
  by (simp add: dec_value_def Decimal_of_int_def)

lemma dec_value_dividedBy_pow2: "dec_value (dec_dividedBy_pow2 x k) = dec_value x / 2 ^ k"
proof -
  have "(10 :: real) ^ k = 5 ^ k * 2 ^ k"
    by (simp flip: power_mult_distrib)
  then show ?thesis
    by (simp add: dec_value_def dec_dividedBy_pow2_def power_add field_simps)
qed

lemma dec_value_plus: "dec_value (dec_plus x y) = dec_value x + dec_value y"
proof -
  define s where "s = max (scale x) (scale y)"
  have x: "(10 :: real) ^ s = 10 ^ (s - scale x) * 10 ^ scale x"
    by (simp add: s_def flip: power_add)
  have y: "(10 :: real) ^ s = 10 ^ (s - scale y) * 10 ^ scale y"
    by (simp add: s_def flip: power_add)
  have "dec_value (dec_plus x y) =
      real_of_int (coefficient x) * 10 ^ (s - scale x) / 10 ^ s
    + real_of_int (coefficient y) * 10 ^ (s - scale y) / 10 ^ s"
    by (simp add: dec_value_def dec_plus_def Let_def s_def add_divide_distrib)
  also have "real_of_int (coefficient x) * 10 ^ (s - scale x) / 10 ^ s = dec_value x"
    by (subst x) (simp add: dec_value_def)
  also have "real_of_int (coefficient y) * 10 ^ (s - scale y) / 10 ^ s = dec_value y"
    by (subst y) (simp add: dec_value_def)
  finally show ?thesis .
qed

lemma dec_value_times: "dec_value (dec_times x y) = dec_value x * dec_value y"
  by (simp add: dec_value_def dec_times_def power_add)

lemma dec_value_two_toPower: "dec_value (dec_two_toPower n) = 2 powi n"
proof (cases "0 \<le> n")
  case True
  then show ?thesis
    by (simp add: dec_value_def dec_two_toPower_def power_int_def)
next
  case False
  have "(10 :: real) ^ nat (- n) = 5 ^ nat (- n) * 2 ^ nat (- n)"
    by (simp flip: power_mult_distrib)
  then show ?thesis using False
    by (simp add: dec_value_def dec_two_toPower_def power_int_def field_simps)
qed

lemma dec_equals_iff: "dec_equals x y \<longleftrightarrow> dec_value x = dec_value y"
proof -
  have "dec_value x = dec_value y \<longleftrightarrow>
      real_of_int (coefficient x) * 10 ^ scale y = real_of_int (coefficient y) * 10 ^ scale x"
    by (simp add: dec_value_def field_simps)
  also have "\<dots> \<longleftrightarrow> real_of_int (coefficient x * 10 ^ scale y) = real_of_int (coefficient y * 10 ^ scale x)"
    by simp
  also have "\<dots> \<longleftrightarrow> dec_equals x y"
    unfolding dec_equals_def by (rule of_int_eq_iff)
  finally show ?thesis by simp
qed

lemma dec_value_exactDecimal_of_bits:
  "dec_value (exactDecimal_of_bits fb) =
     (real_of_int (mantissa fb) / 2 ^ 52 + (if exponent fb = 0 then 0 else 1))
     * 2 powi ((if exponent fb = 0 then 1 else exponent fb) - 1023)"
  by (simp add: exactDecimal_of_bits_def fraction_of_bits_def power_of_bits_def
      dec_value_times dec_value_plus dec_value_dividedBy_pow2 dec_value_of_int dec_value_two_toPower)

lemma dec_value_getExactDecimal: "dec_value (getExactDecimal w) = \<bar>binary64_value w\<bar>"
proof -
  have "0 \<le> real (fraction_bits w) / 2 ^ 52 * 2 powi (- 1022)" by simp
  moreover have "0 \<le> (1 + real (fraction_bits w) / 2 ^ 52) * 2 powi (int (biased_exponent w) - 1023)"
    by simp
  ultimately show ?thesis
    by (simp add: getExactDecimal_def decodeFloat_eq dec_value_exactDecimal_of_bits
        binary64_value_def abs_mult add.commute)
qed

lemma coefficient_fraction_of_bits:
  "coefficient (fraction_of_bits (decodeFloat w)) =
     int (fraction_bits w) * 5 ^ 52 + (if biased_exponent w = 0 then 0 else 10 ^ 52)"
  by (simp add: fraction_of_bits_def decodeFloat_eq dec_plus_def dec_dividedBy_pow2_def
      Decimal_of_int_def)

lemma fraction_coefficient_bound:
  "\<bar>coefficient (fraction_of_bits (decodeFloat w))\<bar> < 2 * 10 ^ 52"
proof -
  have "int (fraction_bits w) < int (2 ^ 52)"
    using fraction_bits_lt [of w] by (simp only: of_nat_less_iff)
  then have "int (fraction_bits w) < 2 ^ 52" by simp
  then have "int (fraction_bits w) * 5 ^ 52 < 2 ^ 52 * 5 ^ 52"
    by (rule mult_strict_right_mono) simp
  also have "(2 :: int) ^ 52 * 5 ^ 52 = 10 ^ 52"
    by (simp flip: power_mult_distrib)
  finally have "int (fraction_bits w) * 5 ^ 52 < 10 ^ 52" .
  then show ?thesis
    by (simp add: coefficient_fraction_of_bits)
qed

lemma pow_le_ten_pow: "(b :: int) ^ k \<le> 10 ^ K" if "0 \<le> b" "b \<le> 10" "k \<le> K"
proof -
  have "b ^ k \<le> 10 ^ k" using that by (intro power_mono) simp_all
  also have "(10 :: int) ^ k \<le> 10 ^ K" using that by (intro power_increasing) simp_all
  finally show ?thesis .
qed

lemma coefficient_two_toPower:
  "coefficient (dec_two_toPower n) = (if 0 \<le> n then 2 else 5) ^ nat \<bar>n\<bar>"
  by (simp add: dec_two_toPower_def)

lemma power_coefficient_cases:
  "\<exists>b k. coefficient (power_of_bits (decodeFloat w)) = b ^ k \<and> 0 \<le> b \<and> b \<le> 10 \<and> k \<le> 1024"
proof -
  define n where "n = (if biased_exponent w = 0 then 1 else int (biased_exponent w)) - 1023"
  have "\<bar>n\<bar> \<le> 1024"
  proof (cases "biased_exponent w = 0")
    case True
    then show ?thesis by (simp add: n_def)
  next
    case False
    then have "1 \<le> int (biased_exponent w)" "int (biased_exponent w) < 2048"
      using biased_exponent_lt [of w] by simp_all
    then show ?thesis using False unfolding n_def by simp
  qed
  then have k: "nat \<bar>n\<bar> \<le> 1024" by simp
  have "power_of_bits (decodeFloat w) = dec_two_toPower n"
    by (simp only: power_of_bits_def decodeFloat_eq n_def FloatBits.simps of_nat_eq_0_iff)
  then have "coefficient (power_of_bits (decodeFloat w)) = (if 0 \<le> n then 2 else 5) ^ nat \<bar>n\<bar>"
    by (simp only: coefficient_two_toPower)
  with k show ?thesis
    by (intro exI [of _ "if 0 \<le> n then 2 else 5"] exI [of _ "nat \<bar>n\<bar>"]) simp
qed

lemma power_coefficient_bound:
  "\<bar>coefficient (power_of_bits (decodeFloat w))\<bar> \<le> 10 ^ 1024"
proof -
  obtain b k where c: "coefficient (power_of_bits (decodeFloat w)) = b ^ k"
    and b: "0 \<le> b" "b \<le> 10" and k: "k \<le> 1024"
    using power_coefficient_cases [of w] by blast
  have "\<bar>b ^ k\<bar> = b ^ k" using b by simp
  moreover have "b ^ k \<le> 10 ^ 1024" using b k by (rule pow_le_ten_pow)
  ultimately show ?thesis unfolding c by (rule ssubst)
qed

lemma ten_pow_le_precision: "n \<le> 10000 \<Longrightarrow> (10 :: int) ^ n \<le> 10 ^ precision"
  unfolding precision_def by (intro power_increasing) simp_all

lemma coefficient_getExactDecimal:
  "\<bar>coefficient (getExactDecimal w)\<bar> =
   \<bar>coefficient (fraction_of_bits (decodeFloat w))\<bar> * \<bar>coefficient (power_of_bits (decodeFloat w))\<bar>"
  by (simp add: getExactDecimal_def exactDecimal_of_bits_def dec_times_def abs_mult)

lemma mult_bound:
  fixes f p F P :: int
  assumes "0 \<le> f" "f < F" "0 \<le> p" "p \<le> P" "0 < P"
  shows "f * p < F * P"
proof -
  have "f * p \<le> f * P" using assms by (intro mult_left_mono)
  also have "f * P < F * P" using assms by (intro mult_strict_right_mono)
  finally show ?thesis .
qed

lemma getExactDecimal_within_precision:
  "\<bar>coefficient (fraction_of_bits (decodeFloat w))\<bar> < 10 ^ precision \<and>
   \<bar>coefficient (power_of_bits (decodeFloat w))\<bar> < 10 ^ precision \<and>
   \<bar>coefficient (getExactDecimal w)\<bar> < 10 ^ precision"
proof -
  let ?f = "\<bar>coefficient (fraction_of_bits (decodeFloat w))\<bar>"
  let ?p = "\<bar>coefficient (power_of_bits (decodeFloat w))\<bar>"
  have f: "?f < 10 ^ 53"
    using fraction_coefficient_bound [of w] by simp
  have p: "?p \<le> 10 ^ 1024" by (rule power_coefficient_bound)
  have "?f * ?p < 10 ^ 53 * 10 ^ 1024"
    using _ f _ p by (rule mult_bound) (simp_all only: abs_ge_zero zero_less_power zero_less_numeral)
  then have g: "\<bar>coefficient (getExactDecimal w)\<bar> < 10 ^ (53 + 1024)"
    by (simp only: power_add coefficient_getExactDecimal)
  have "?f < 10 ^ precision" using f by (rule less_le_trans) (rule ten_pow_le_precision, simp)
  moreover have "?p < 10 ^ precision"
  proof -
    have "(10 :: int) ^ 1024 < 10 ^ 1025" by (rule power_strict_increasing) simp_all
    with p have "?p < 10 ^ 1025" by (rule le_less_trans)
    then show ?thesis by (rule less_le_trans) (rule ten_pow_le_precision, simp)
  qed
  moreover have "\<bar>coefficient (getExactDecimal w)\<bar> < 10 ^ precision"
    using g by (rule less_le_trans) (rule ten_pow_le_precision, simp)
  ultimately show ?thesis by (intro conjI)
qed

section \<open>The exact value computer\<close>

text \<open>
  C4: for well-formed fields (an 11-bit exponent and a 52-bit mantissa) the exact value
  computer returns exactly \<open>(mantissa / 2 ^ 52) * 2 ^ (1 - 1023)\<close> when the exponent is 0,
  and exactly \<open>(mantissa / 2 ^ 52 + 1) * 2 ^ (exponent - 1023)\<close> otherwise; with both fields
  0 the result is the decimal zero.  The equations are between real numbers: nothing is
  rounded.
\<close>

theorem exactDecimal_of_bits_exact:
  assumes "0 \<le> e" and "e < 2048" and "0 \<le> m" and "m < 2 ^ 52"
  shows "dec_value (exactDecimal_of_bits \<lparr>exponent = e, mantissa = m\<rparr>) =
           (if e = 0 then (real_of_int m / 2 ^ 52) * 2 powi (1 - 1023)
            else (real_of_int m / 2 ^ 52 + 1) * 2 powi (e - 1023))
         \<and> dec_value (exactDecimal_of_bits \<lparr>exponent = 0, mantissa = 0\<rparr>) = 0"
  by (simp add: dec_value_exactDecimal_of_bits)

theorem exactDecimal_of_bits_exact_witness:
  "dec_value (exactDecimal_of_bits \<lparr>exponent = 1023, mantissa = 0x8000000000000\<rparr>) = 3 / 2"
  using exactDecimal_of_bits_exact [of 1023 "0x8000000000000"] by simp

text \<open>
  C3, as amended: for every finite value \<open>v\<close> that is not negative (\<open>0 \<le> v\<close>, which
  includes \<open>-0\<close>), \<open>_getExactDecimal(v)\<close> is exactly the real number \<open>v\<close> denotes under
  binary64.
\<close>

theorem getExactDecimal_exact:
  assumes "isFinite v" and "0 \<le> binary64_value v"
  shows "dec_value (getExactDecimal v) = binary64_value v"
  using assms dec_value_getExactDecimal [of v] by simp

theorem getExactDecimal_exact_witness:
  "isFinite 0x3FF8000000000000 \<and> binary64_value 0x3FF8000000000000 = 3 / 2
   \<and> dec_value (getExactDecimal 0x3FF8000000000000) = 3 / 2"
proof -
  have f: "isFinite 0x3FF8000000000000"
    by (simp add: isFinite_def biased_exponent_def)
  have b: "binary64_value 0x3FF8000000000000 = 3 / 2"
    by (simp add: binary64_value_def biased_exponent_def fraction_bits_def sign_bit_def)
  show ?thesis using getExactDecimal_exact [OF f] f b by simp
qed

text \<open>
  The claim as it was stated, for every finite value, fails at \<open>-1.5\<close> (the bit pattern
  \<open>0xBFF8000000000000\<close>): the decoder drops the sign, so the result is \<open>1.5\<close>.
\<close>

theorem getExactDecimal_negative_counterexample:
  "isFinite 0xBFF8000000000000 \<and>
   dec_value (getExactDecimal 0xBFF8000000000000) \<noteq> binary64_value 0xBFF8000000000000"
proof -
  have f: "isFinite 0xBFF8000000000000"
    by (simp add: isFinite_def biased_exponent_def)
  have b: "binary64_value 0xBFF8000000000000 = - (3 / 2)"
    by (simp add: binary64_value_def biased_exponent_def fraction_bits_def sign_bit_def)
  show ?thesis using f b dec_value_getExactDecimal [of "0xBFF8000000000000"] by simp
qed

text \<open>
  C10: the decoder does not see the sign.  For every finite \<open>v\<close>, \<open>_decodeFloat(-v)\<close>
  returns the fields of \<open>_decodeFloat(v)\<close>, and \<open>_getExactDecimal(v)\<close> is the exact value
  of \<open>|v|\<close>, also when \<open>v\<close> is negative.
\<close>

theorem decodeFloat_ignores_sign:
  assumes "isFinite v"
  shows "decodeFloat (negate v) = decodeFloat v \<and>
         getExactDecimal (negate v) = getExactDecimal v \<and>
         dec_value (getExactDecimal v) = \<bar>binary64_value v\<bar>"
proof -
  have d: "decodeFloat (negate v) = decodeFloat v"
    by (simp add: decodeFloat_eq biased_exponent_negate fraction_bits_negate)
  then have "getExactDecimal (negate v) = getExactDecimal v"
    by (simp add: getExactDecimal_def)
  then show ?thesis using d dec_value_getExactDecimal [of v] by simp
qed

theorem decodeFloat_ignores_sign_witness:
  "isFinite 0xBFF8000000000000 \<and>
   decodeFloat 0x3FF8000000000000 = decodeFloat 0xBFF8000000000000 \<and>
   dec_value (getExactDecimal 0xBFF8000000000000) = 3 / 2"
proof -
  have f: "isFinite 0xBFF8000000000000"
    by (simp add: isFinite_def biased_exponent_def)
  have n: "negate 0xBFF8000000000000 = 0x3FF8000000000000"
    by (simp add: negate_def)
  have b: "binary64_value 0xBFF8000000000000 = - (3 / 2)"
    by (simp add: binary64_value_def biased_exponent_def fraction_bits_def sign_bit_def)
  show ?thesis using decodeFloat_ignores_sign [OF f] f n b by simp
qed

section \<open>The literal grammar\<close>

lemma nullable_iff: "nullable r \<longleftrightarrow> [] \<in> lang r"
  by (induction r) (auto intro: star.intros)

lemma star_Cons_iff:
  "c # s \<in> star A \<longleftrightarrow> (\<exists>u v. s = u @ v \<and> c # u \<in> A \<and> v \<in> star A)"
proof
  assume "c # s \<in> star A"
  then show "\<exists>u v. s = u @ v \<and> c # u \<in> A \<and> v \<in> star A"
  proof (induction "c # s" arbitrary: s rule: star.induct)
    case (star_app u v)
    show ?case
    proof (cases u)
      case Nil
      with star_app show ?thesis by simp
    next
      case (Cons a u')
      with star_app.hyps(1,2,4) show ?thesis by auto
    qed
  qed
next
  assume "\<exists>u v. s = u @ v \<and> c # u \<in> A \<and> v \<in> star A"
  then obtain u v where "s = u @ v" "c # u \<in> A" "v \<in> star A" by blast
  then show "c # s \<in> star A"
    using star_app [of "c # u" A v] by simp
qed

lemma lang_SeqI: "u \<in> lang r \<Longrightarrow> v \<in> lang s \<Longrightarrow> u @ v \<in> lang (Seq r s)"
  by auto

lemma lang_deriv: "s \<in> lang (deriv c r) \<longleftrightarrow> c # s \<in> lang r"
proof (induction r arbitrary: s)
  case (Seq r1 r2)
  show ?case
  proof
    assume "s \<in> lang (deriv c (Seq r1 r2))"
    then consider (left) u v where "s = u @ v" "u \<in> lang (deriv c r1)" "v \<in> lang r2"
      | (right) "nullable r1" "s \<in> lang (deriv c r2)"
      by (auto split: if_splits)
    then show "c # s \<in> lang (Seq r1 r2)"
    proof cases
      case left
      then have "c # u \<in> lang r1" using Seq by simp
      then have "(c # u) @ v \<in> lang (Seq r1 r2)" using left by (intro lang_SeqI)
      then show ?thesis using left by simp
    next
      case right
      then have "[] \<in> lang r1" "c # s \<in> lang r2" using Seq by (simp_all add: nullable_iff)
      then have "[] @ (c # s) \<in> lang (Seq r1 r2)" by (intro lang_SeqI)
      then show ?thesis by simp
    qed
  next
    assume "c # s \<in> lang (Seq r1 r2)"
    then obtain u v where uv: "c # s = u @ v" "u \<in> lang r1" "v \<in> lang r2" by auto
    show "s \<in> lang (deriv c (Seq r1 r2))"
    proof (cases u)
      case Nil
      with uv Seq show ?thesis by (auto simp add: nullable_iff)
    next
      case (Cons a u')
      with uv Seq have "u' \<in> lang (deriv c r1)" "s = u' @ v" by auto
      with uv show ?thesis by auto
    qed
  qed
next
  case (Star r)
  then show ?case by (auto simp add: star_Cons_iff)
qed auto

lemma regex_test_iff: "regex_test r s \<longleftrightarrow> s \<in> lang r"
  by (induction s arbitrary: r) (simp_all add: nullable_iff lang_deriv)


lemma lang_Seq_iff: "s \<in> lang (Seq r t) \<longleftrightarrow> (\<exists>u v. s = u @ v \<and> u \<in> lang r \<and> v \<in> lang t)"
  by auto

lemma lang_Alt_iff: "s \<in> lang (Alt r t) \<longleftrightarrow> s \<in> lang r \<or> s \<in> lang t"
  by simp

lemma lang_Opt_iff: "s \<in> lang (Opt r) \<longleftrightarrow> s \<in> lang r \<or> s = []"
  by (auto simp add: Opt_def)

lemma lang_Chars_iff: "s \<in> lang (Chars cs) \<longleftrightarrow> (\<exists>c. s = [c] \<and> c \<in> set cs)"
  by auto

lemma lang_digit: "s \<in> lang (Chars ''0123456789'') \<longleftrightarrow> (\<exists>c. s = [c] \<and> is_digit c)"
  by (simp only: lang_Chars_iff is_digit_def)

lemma lang_Star_digits: "s \<in> lang (Star (Chars ''0123456789'')) \<longleftrightarrow> list_all is_digit s"
proof
  assume "s \<in> lang (Star (Chars ''0123456789''))"
  then have "s \<in> star (lang (Chars ''0123456789''))" by (simp only: lang.simps)
  then show "list_all is_digit s"
  proof (induction rule: star.induct)
    case star_nil
    show ?case by simp
  next
    case (star_app u v)
    then obtain c where "u = [c]" "is_digit c" by (auto simp only: lang_digit)
    with star_app show ?case by simp
  qed
next
  assume "list_all is_digit s"
  then have "s \<in> star (lang (Chars ''0123456789''))"
  proof (induction s)
    case Nil
    show ?case by (rule star_nil)
  next
    case (Cons c s)
    then have "is_digit c" "s \<in> star (lang (Chars ''0123456789''))"
      by simp_all
    then have "[c] \<in> lang (Chars ''0123456789'')" "s \<in> star (lang (Chars ''0123456789''))"
      by (simp_all only: lang_digit) simp
    then have "[c] @ s \<in> star (lang (Chars ''0123456789''))" by (rule star_app)
    then show ?case by simp
  qed
  then show "s \<in> lang (Star (Chars ''0123456789''))" by (simp only: lang.simps)
qed

lemma single_prefix:
  "(\<exists>u v. s = u @ v \<and> (\<exists>c. u = [c] \<and> P c) \<and> Q v) \<longleftrightarrow> (\<exists>c v. s = c # v \<and> P c \<and> Q v)"
proof
  assume "\<exists>u v. s = u @ v \<and> (\<exists>c. u = [c] \<and> P c) \<and> Q v"
  then show "\<exists>c v. s = c # v \<and> P c \<and> Q v" by auto
next
  assume "\<exists>c v. s = c # v \<and> P c \<and> Q v"
  then obtain c v where "s = [c] @ v" "P c" "Q v" by auto
  then show "\<exists>u v. s = u @ v \<and> (\<exists>c. u = [c] \<and> P c) \<and> Q v" by blast
qed

lemma lang_Plus_digits:
  "s \<in> lang (Plus (Chars ''0123456789'')) \<longleftrightarrow> s \<noteq> [] \<and> list_all is_digit s"
proof -
  have "s \<in> lang (Plus (Chars ''0123456789'')) \<longleftrightarrow>
      (\<exists>c v. s = c # v \<and> is_digit c \<and> list_all is_digit v)"
    unfolding Plus_def lang_Seq_iff lang_digit lang_Star_digits by (rule single_prefix)
  also have "\<dots> \<longleftrightarrow> s \<noteq> [] \<and> list_all is_digit s"
    by (cases s) auto
  finally show ?thesis .
qed

lemma lang_integer:
  "s \<in> lang (Alt (Chars ''0'') (Seq (Chars ''123456789'') (Star (Chars ''0123456789'')))) \<longleftrightarrow> integer_part s"
  unfolding lang_Alt_iff lang_Seq_iff lang_Star_digits lang_Chars_iff integer_part_def single_prefix
  by auto

lemma lang_fraction:
  "s \<in> lang (Seq (Chars ''.'') (Plus (Chars ''0123456789''))) \<longleftrightarrow> fraction_part s"
  unfolding lang_Seq_iff lang_Plus_digits lang_Chars_iff fraction_part_def single_prefix
  by auto

lemma lang_exponent:
  "s \<in> lang (Seq (Chars ''eE'') (Seq (Opt (Chars ''+-'')) (Plus (Chars ''0123456789'')))) \<longleftrightarrow> exponent_part s"
proof
  assume "s \<in> lang (Seq (Chars ''eE'') (Seq (Opt (Chars ''+-'')) (Plus (Chars ''0123456789''))))"
  then obtain m sg ds where "s = [m] @ sg @ ds" "m \<in> set ''eE''"
    "sg \<in> lang (Chars ''+-'') \<or> sg = []" "ds \<noteq> [] \<and> list_all is_digit ds"
    unfolding lang_Seq_iff lang_Opt_iff lang_Plus_digits lang_Chars_iff [of _ "''eE''"] by blast
  then show "exponent_part s"
    unfolding exponent_part_def lang_Chars_iff by (intro exI [of _ m] exI [of _ sg] exI [of _ ds]) auto
next
  assume "exponent_part s"
  then obtain m sg ds where s: "s = m # sg @ ds" "m = CHR ''e'' \<or> m = CHR ''E''"
    "sg = [] \<or> sg = ''+'' \<or> sg = ''-''" "ds \<noteq> []" "list_all is_digit ds"
    unfolding exponent_part_def by blast
  have "[m] \<in> lang (Chars ''eE'')" using s(2) by auto
  moreover have "sg \<in> lang (Opt (Chars ''+-''))" using s(3) by (auto simp add: Opt_def)
  moreover have "ds \<in> lang (Plus (Chars ''0123456789''))"
    unfolding lang_Plus_digits using s(4,5) by blast
  ultimately have "[m] @ sg @ ds \<in> lang (Seq (Chars ''eE'') (Seq (Opt (Chars ''+-'')) (Plus (Chars ''0123456789''))))"
    by (intro lang_SeqI)
  then show "s \<in> lang (Seq (Chars ''eE'') (Seq (Opt (Chars ''+-'')) (Plus (Chars ''0123456789''))))"
    using s(1) by simp
qed

lemma lang_numeric_regex: "s \<in> lang numeric_regex \<longleftrightarrow> decimal_literal s"
proof -
  have m: "sg \<in> lang (Chars ''-'') \<longleftrightarrow> sg = ''-''" for sg
    by auto
  show ?thesis
    unfolding numeric_regex_def lang_Seq_iff [of s] lang_Seq_iff [of _ "Alt _ _"]
      lang_Seq_iff [of _ "Opt (Seq (Chars ''.'') _)"] lang_Opt_iff
      lang_integer lang_fraction lang_exponent decimal_literal_def m
    by blast
qed

lemma regex_test_numeric: "regex_test numeric_regex s \<longleftrightarrow> decimal_literal s"
  by (simp only: regex_test_iff lang_numeric_regex)

section \<open>Guards and syntax errors\<close>

lemma regex_test_examples:
  "\<not> regex_test numeric_regex ''01''" "\<not> regex_test numeric_regex ''''"
  "\<not> regex_test numeric_regex ''1.''" "\<not> regex_test numeric_regex ''+1''"
  "\<not> regex_test numeric_regex ''1.5.2''"
  by (simp_all add: numeric_regex_def Opt_def Plus_def)

lemma parse_syntax_error:
  assumes "s \<noteq> ''NaN''" and "s \<noteq> ''Infinity''" and "s \<noteq> ''-Infinity''"
    and "\<not> regex_test numeric_regex s"
  shows "parse [JSString s] = Inl (SyntaxError s)"
  using assms by (simp add: parse_def)

text \<open>
  C7: \<open>parse\<close> fails with the syntax error for every string that is not one of the three
  special inputs and is not a decimal literal of the grammar; among them \<open>01\<close>, the empty
  string, \<open>1.\<close> and \<open>+1\<close>.
\<close>

theorem parse_rejects_non_literals:
  assumes "s \<noteq> ''NaN''" and "s \<noteq> ''Infinity''" and "s \<noteq> ''-Infinity''"
    and "\<not> decimal_literal s"
  shows "parse [JSString s] = Inl (SyntaxError s)
    \<and> parse [JSString ''01''] = Inl (SyntaxError ''01'')
    \<and> parse [JSString []] = Inl (SyntaxError [])
    \<and> parse [JSString ''1.''] = Inl (SyntaxError ''1.'')
    \<and> parse [JSString ''+1''] = Inl (SyntaxError ''+1'')"
proof -
  have "parse [JSString s] = Inl (SyntaxError s)"
    using assms by (intro parse_syntax_error) (simp_all only: regex_test_numeric, simp_all)
  moreover have "parse [JSString ''01''] = Inl (SyntaxError ''01'')"
    by (rule parse_syntax_error [OF _ _ _ regex_test_examples(1)]) simp_all
  moreover have "parse [JSString []] = Inl (SyntaxError [])"
    by (rule parse_syntax_error [OF _ _ _ regex_test_examples(2)]) simp_all
  moreover have "parse [JSString ''1.''] = Inl (SyntaxError ''1.'')"
    by (rule parse_syntax_error [OF _ _ _ regex_test_examples(3)]) simp_all
  moreover have "parse [JSString ''+1''] = Inl (SyntaxError ''+1'')"
    by (rule parse_syntax_error [OF _ _ _ regex_test_examples(4)]) simp_all
  ultimately show ?thesis by (intro conjI)
qed

theorem parse_rejects_non_literals_witness:
  "\<not> decimal_literal ''1.5.2'' \<and> parse [JSString ''1.5.2''] = Inl (SyntaxError ''1.5.2'')"
proof -
  have d: "\<not> decimal_literal ''1.5.2''"
    using regex_test_examples(5) unfolding regex_test_numeric .
  have "parse [JSString ''1.5.2''] = Inl (SyntaxError ''1.5.2'')"
    using parse_rejects_non_literals [OF _ _ _ d] by simp
  with d show ?thesis by (intro conjI)
qed

text \<open>
  C9: with a number of arguments other than one, \<open>stringify\<close> and \<open>parse\<close> fail with the
  arity error; with one argument that is not a number (for \<open>stringify\<close>) or not a string
  (for \<open>parse\<close>) they fail with the type error.  Both guards come before anything else,
  and the functions are pure: the failure is all that a call produces.
\<close>

theorem arity_and_type_guards:
  "(length params \<noteq> 1 \<longrightarrow>
      stringify params = Inl (ArityError (length params)) \<and>
      parse params = Inl (ArityError (length params)))
   \<and> (typeof x \<noteq> ''number'' \<longrightarrow> stringify [x] = Inl (TypeError (typeof x)))
   \<and> (typeof x \<noteq> ''string'' \<longrightarrow> parse [x] = Inl (TypeError (typeof x)))"
  by (cases x) (simp_all add: stringify_def parse_def)

theorem arity_and_type_guards_witness:
  "stringify [] = Inl (ArityError 0) \<and> parse [JSNull, JSNull] = Inl (ArityError 2)
   \<and> stringify [JSString ''1''] = Inl (TypeError ''string'')
   \<and> parse [JSNumber 0] = Inl (TypeError ''number'')"
  using arity_and_type_guards [of "[]" "JSString ''1''"]
    arity_and_type_guards [of "[JSNull, JSNull]" "JSNumber 0"]
  by simp

section \<open>Rounding a decimal to binary64\<close>

lemma take_bit_split_nat:
  "take_bit (a + b) (n :: nat) = take_bit a n + push_bit a (take_bit b (drop_bit a n))"
  using bits_ident [of a "take_bit (a + b) n"] by (simp add: drop_bit_take_bit ac_simps min_def)

lemma unat_fields:
  "unat w = fraction_bits w + 2 ^ 52 * biased_exponent w + 2 ^ 63 * (if sign_bit w then 1 else 0)"
proof -
  define n where "n = unat w"
  have f: "fraction_bits w = take_bit 52 n"
    unfolding fraction_bits_def n_def by (simp only: unsigned_take_bit_eq)
  have e: "biased_exponent w = take_bit 11 (drop_bit 52 n)"
    unfolding biased_exponent_def n_def by (simp only: unsigned_take_bit_eq unat_drop_bit_eq)
  have s: "sign_bit w = bit n 63"
    unfolding sign_bit_def n_def by (simp add: bit_unsigned_iff)
  have "n < 2 ^ 64" unfolding n_def using unsigned_less [of w, where ?'a = nat] by simp
  then have "n = take_bit 64 n" by (simp add: take_bit_nat_eq_self)
  also have "\<dots> = take_bit 52 n + push_bit 52 (take_bit 12 (drop_bit 52 n))"
    using take_bit_split_nat [of 52 12 n] by simp
  also have "take_bit 12 (drop_bit 52 n) =
      take_bit 11 (drop_bit 52 n) + push_bit 11 (take_bit 1 (drop_bit 63 n))"
    using take_bit_split_nat [of 11 1 "drop_bit 52 n"] by simp
  also have "take_bit 1 (drop_bit 63 n) = (if bit n 63 then 1 else 0)"
    by (simp add: take_bit_Suc_from_most bit_iff_odd_drop_bit mod_2_eq_odd)
  finally show ?thesis
    unfolding f e s n_def [symmetric] by (simp add: push_bit_eq_mult algebra_simps)
qed

lemma word_of_fields:
  "\<not> sign_bit w \<Longrightarrow> (of_nat (biased_exponent w * 2 ^ 52 + fraction_bits w) :: float64) = w"
proof -
  assume "\<not> sign_bit w"
  then have "unat w = biased_exponent w * 2 ^ 52 + fraction_bits w"
    using unat_fields [of w] by simp
  then have "(of_nat (biased_exponent w * 2 ^ 52 + fraction_bits w) :: float64) = of_nat (unat w)"
    by (simp only:)
  then show ?thesis by simp
qed

lemma sign_bit_of_nat: "b < 2 ^ 63 \<Longrightarrow> \<not> sign_bit (of_nat b :: float64)"
proof -
  assume "b < 2 ^ 63"
  then have "\<not> bit b 63" by (simp add: bit_iff_odd_drop_bit drop_bit_eq_div)
  then show ?thesis by (simp add: sign_bit_def bit_of_nat_iff)
qed

lemma bit_length_bounds: "0 < n \<Longrightarrow> 2 ^ bit_length n \<le> 2 * n \<and> n < 2 ^ bit_length n"
proof (induction n rule: bit_length.induct)
  case (1 n)
  show ?case
  proof (cases "n div 2 = 0")
    case True
    with 1(2) have "n = 1" by presburger
    moreover have "bit_length (Suc 0) = Suc 0"
      by (simp add: bit_length.simps [of "Suc 0"] bit_length.simps [of 0])
    ultimately show ?thesis by simp
  next
    case False
    then have "2 ^ bit_length (n div 2) \<le> 2 * (n div 2) \<and> n div 2 < 2 ^ bit_length (n div 2)"
      using 1 by simp
    moreover have "bit_length n = Suc (bit_length (n div 2))"
      using 1(2) by (subst bit_length.simps) simp
    ultimately show ?thesis by (simp only: power_Suc) presburger
  qed
qed


lemma powi_le_imp_le: "(2 :: real) powi a \<le> x \<Longrightarrow> x < 2 powi (b + 1) \<Longrightarrow> a \<le> b"
proof (rule ccontr)
  assume lo: "(2 :: real) powi a \<le> x" and hi: "x < 2 powi (b + 1)" and "\<not> a \<le> b"
  then have "b + 1 \<le> a" by simp
  then have "(2 :: real) powi (b + 1) \<le> 2 powi a" by (intro power_int_increasing) simp_all
  with lo hi show False by linarith
qed

lemma powi_unique:
  "(2 :: real) powi a \<le> x \<Longrightarrow> x < 2 powi (a + 1) \<Longrightarrow> 2 powi b \<le> x \<Longrightarrow> x < 2 powi (b + 1) \<Longrightarrow> a = b"
  using powi_le_imp_le [of a x b] powi_le_imp_le [of b x a] by simp

lemma floor_log2_test:
  assumes "0 < d"
  shows "(if 0 \<le> e then d * 2 ^ nat e \<le> n else d \<le> n * 2 ^ nat (- e)) \<longleftrightarrow>
         2 powi e \<le> real n / real d"
proof (cases "0 \<le> e")
  case True
  have "d * 2 ^ nat e \<le> n \<longleftrightarrow> real (d * 2 ^ nat e) \<le> real n" by (simp only: of_nat_le_iff)
  also have "\<dots> \<longleftrightarrow> 2 ^ nat e \<le> real n / real d"
    using assms by (simp add: pos_le_divide_eq mult.commute)
  finally show ?thesis using True by (simp add: power_int_def)
next
  case False
  have "d \<le> n * 2 ^ nat (- e) \<longleftrightarrow> real d \<le> real (n * 2 ^ nat (- e))" by (simp only: of_nat_le_iff)
  also have "\<dots> \<longleftrightarrow> inverse (2 ^ nat (- e)) \<le> real n / real d"
    using assms by (simp add: field_simps)
  finally show ?thesis using False by (simp add: power_int_def power_one_over inverse_eq_divide)
qed

lemma floor_log2_bounds:
  assumes "0 < n" and "0 < d"
  shows "2 powi (floor_log2 n d) \<le> real n / real d \<and> real n / real d < 2 powi (floor_log2 n d + 1)"
proof -
  define a where "a = bit_length n"
  define b where "b = bit_length d"
  define e where "e = int a - int b"
  define q where "q = real n / real d"
  have n: "(2 :: real) ^ a \<le> 2 * real n" "real n < 2 ^ a"
    using bit_length_bounds [OF assms(1)] unfolding a_def
    by (metis of_nat_le_iff of_nat_mult of_nat_numeral of_nat_power, metis of_nat_less_iff of_nat_numeral of_nat_power)
  have d: "(2 :: real) ^ b \<le> 2 * real d" "real d < 2 ^ b"
    using bit_length_bounds [OF assms(2)] unfolding b_def
    by (metis of_nat_le_iff of_nat_mult of_nat_numeral of_nat_power, metis of_nat_less_iff of_nat_numeral of_nat_power)
  have dpos: "0 < real d" using assms by simp
  have e2: "(2 :: real) powi e = 2 ^ a / 2 ^ b"
    unfolding e_def by (simp add: power_int_diff)
  have hi: "q < 2 powi (e + 1)"
  proof -
    have "real n * 2 ^ b < 2 ^ a * (2 * real d)"
      using n(2) d(1) dpos by (intro mult_less_le_imp_less) simp_all
    then have "q < 2 * (2 ^ a / 2 ^ b)"
      unfolding q_def using dpos by (simp add: field_simps)
    then show ?thesis by (simp add: power_int_add e2 mult.commute)
  qed
  have lo: "2 powi (e - 1) \<le> q"
  proof -
    have "2 ^ a * real d \<le> (2 * real n) * 2 ^ b"
      using n(1) d(2) dpos by (intro mult_mono) simp_all
    then have "(2 ^ a / 2 ^ b) / 2 \<le> q"
      unfolding q_def using dpos by (simp add: field_simps)
    then show ?thesis by (simp add: power_int_diff e2)
  qed
  have t: "floor_log2 n d = (if 2 powi e \<le> q then e else e - 1)"
    unfolding floor_log2_def Let_def a_def [symmetric] b_def [symmetric] e_def [symmetric]
      floor_log2_test [OF assms(2)] q_def ..
  show ?thesis
  proof (cases "2 powi e \<le> q")
    case True
    then show ?thesis using hi t by (simp add: q_def)
  next
    case False
    then show ?thesis using lo t by (simp add: q_def)
  qed
qed

lemma round_half_even_exact: "0 < d \<Longrightarrow> round_half_even (q * d) d = q"
  by (simp add: round_half_even_def)

lemma round_half_even_ge: "n div d \<le> round_half_even n d"
  by (simp add: round_half_even_def Let_def)


lemma powi_shift: "(2 :: real) powi (a + int k) = 2 ^ k * 2 powi a"
  by (simp add: power_int_add)

lemma binary64_value_significand:
  assumes "\<not> sign_bit w"
  shows "binary64_value w =
     real (if biased_exponent w = 0 then fraction_bits w else 2 ^ 52 + fraction_bits w)
     * 2 powi (int (if biased_exponent w = 0 then 1 else biased_exponent w) - 1075)"
proof (cases "biased_exponent w = 0")
  case True
  have "(2 :: real) powi (- 1022) = 2 ^ 52 * 2 powi (- 1074)"
    using powi_shift [of "- 1074" 52] by simp
  then show ?thesis using True assms
    by (simp add: binary64_value_def)
next
  case False
  have "(2 :: real) powi (int (biased_exponent w) - 1023) =
      2 ^ 52 * 2 powi (int (biased_exponent w) - 1075)"
    using powi_shift [of "int (biased_exponent w) - 1075" 52] by simp
  then show ?thesis using False assms
    by (simp add: binary64_value_def field_simps)
qed

lemma toNumber_exponent:
  fixes n d sig ex :: nat
  assumes "0 < n" and "0 < d" and "1 \<le> ex"
    and v: "real n / real d = real sig * 2 powi (int ex - 1075)"
    and rng: "(ex = 1 \<and> sig < 2 ^ 52) \<or> (2 ^ 52 \<le> sig \<and> sig < 2 ^ 53)"
  shows "max (floor_log2 n d) (- 1022) = int ex - 1023"
proof -
  define q where "q = real n / real d"
  have fl: "2 powi (floor_log2 n d) \<le> q" "q < 2 powi (floor_log2 n d + 1)"
    using floor_log2_bounds [OF assms(1,2)] by (simp_all add: q_def)
  have p: "0 < (2 :: real) powi (int ex - 1075)" by simp
  from rng show ?thesis
  proof
    assume a: "ex = 1 \<and> sig < 2 ^ 52"
    then have "real sig < 2 ^ 52"
      by (metis of_nat_less_iff of_nat_numeral of_nat_power)
    then have "real sig * 2 powi (int ex - 1075) < 2 ^ 52 * 2 powi (int ex - 1075)"
      using p by (simp only: mult_less_cancel_right_pos)
    also have "(2 :: real) ^ 52 * 2 powi (int ex - 1075) = 2 powi (- 1023 + 1)"
      using a powi_shift [of "- 1074" 52] by simp
    finally have "q < 2 powi (- 1023 + 1)" by (simp only: q_def v)
    with fl(1) have "floor_log2 n d \<le> - 1023" by (rule powi_le_imp_le)
    then show ?thesis using a by simp
  next
    assume a: "2 ^ 52 \<le> sig \<and> sig < 2 ^ 53"
    then have s: "2 ^ 52 \<le> real sig" "real sig < 2 ^ 53"
      by (metis of_nat_le_iff of_nat_numeral of_nat_power, metis of_nat_less_iff of_nat_numeral of_nat_power)
    have e1: "(2 :: real) powi (int ex - 1023) = 2 ^ 52 * 2 powi (int ex - 1075)"
      using powi_shift [of "int ex - 1075" 52] by simp
    have e2: "(2 :: real) powi (int ex - 1023 + 1) = 2 ^ 53 * 2 powi (int ex - 1075)"
      using powi_shift [of "int ex - 1075" 53] by simp
    have "2 powi (int ex - 1023) \<le> q"
      unfolding e1 q_def v using s(1) p by (simp only: mult_le_cancel_right_pos)
    moreover have "q < 2 powi (int ex - 1023 + 1)"
      unfolding e2 q_def v using s(2) p by (simp only: mult_less_cancel_right_pos)
    ultimately have "floor_log2 n d = int ex - 1023"
      using fl by (intro powi_unique [of _ q])
    then show ?thesis using assms(3) by simp
  qed
qed

lemma toNumber_significand:
  fixes n d sig :: nat
  assumes "0 < d" and v: "real n / real d = real sig * 2 powi (e - 52)"
  shows "(if e \<le> 52 then round_half_even (n * 2 ^ nat (52 - e)) d
          else round_half_even n (d * 2 ^ nat (e - 52))) = sig"
proof (cases "e \<le> 52")
  case True
  have "(2 :: real) powi (e - 52) = inverse (2 ^ nat (52 - e))"
    using True by (simp add: power_int_def power_one_over inverse_eq_divide)
  then have "real n * 2 ^ nat (52 - e) = real sig * real d"
    using v assms(1) by (simp add: field_simps)
  then have "real (n * 2 ^ nat (52 - e)) = real (sig * d)" by simp
  then have "n * 2 ^ nat (52 - e) = sig * d" by (simp only: of_nat_eq_iff)
  then show ?thesis using True assms(1) by (simp add: round_half_even_exact)
next
  case False
  then have "(2 :: real) powi (e - 52) = 2 ^ nat (e - 52)"
    by (simp add: power_int_def)
  then have "real n = real sig * (real d * 2 ^ nat (e - 52))"
    using v assms(1) by (simp add: field_simps)
  then have "real n = real (sig * (d * 2 ^ nat (e - 52)))" by simp
  then have "n = sig * (d * 2 ^ nat (e - 52))" by (simp only: of_nat_eq_iff)
  then show ?thesis using False assms(1) by (simp add: round_half_even_exact)
qed


lemma dec_value_nat:
  "0 \<le> coefficient x \<Longrightarrow> dec_value x = real (nat (coefficient x)) / real (10 ^ scale x)"
  by (simp add: dec_value_def)

lemma dec_toNumber_zero: "coefficient x = 0 \<Longrightarrow> dec_toNumber x = 0"
  by (simp add: dec_toNumber_def Let_def)

lemma dec_toNumber_eq:
  assumes "0 \<le> coefficient x" and "n = nat (coefficient x)" and "d = 10 ^ scale x" and "0 < n"
    and "e = max (floor_log2 n d) (- 1022)"
    and "m = (if e \<le> 52 then round_half_even (n * 2 ^ nat (52 - e)) d
              else round_half_even n (d * 2 ^ nat (e - 52)))"
    and "bits = nat (e + 1022) * 2 ^ 52 + m"
  shows "dec_toNumber x = (if 2047 * 2 ^ 52 \<le> bits then Infinity else of_nat bits)"
proof -
  have a: "nat \<bar>coefficient x\<bar> = n" "\<not> coefficient x < 0" "n \<noteq> 0"
    using assms(1,2,4) by simp_all
  show ?thesis
    unfolding dec_toNumber_def Let_def a assms(3) [symmetric] assms(5) [symmetric]
      assms(6) [symmetric] assms(7) [symmetric]
    using a(2,3) by (simp only: if_False)
qed

lemma sign_bit_dec_toNumber:
  assumes "0 \<le> coefficient x"
  shows "\<not> sign_bit (dec_toNumber x)"
proof (cases "coefficient x = 0")
  case True
  then show ?thesis by (simp add: dec_toNumber_zero sign_bit_def)
next
  case False
  define n where "n = nat (coefficient x)"
  define d :: nat where "d = 10 ^ scale x"
  define e where "e = max (floor_log2 n d) (- 1022)"
  define m where "m = (if e \<le> 52 then round_half_even (n * 2 ^ nat (52 - e)) d
              else round_half_even n (d * 2 ^ nat (e - 52)))"
  define bits where "bits = nat (e + 1022) * 2 ^ 52 + m"
  have "0 < n" using False assms by (simp add: n_def)
  then have r: "dec_toNumber x = (if 2047 * 2 ^ 52 \<le> bits then Infinity else of_nat bits)"
    using assms n_def d_def e_def m_def bits_def by (intro dec_toNumber_eq)
  show ?thesis
  proof (cases "2047 * 2 ^ 52 \<le> bits")
    case True
    then show ?thesis unfolding r by (simp add: Infinity_def sign_bit_def)
  next
    case False
    then have "bits < 2 ^ 63" by simp
    then have "\<not> sign_bit (of_nat bits :: float64)" by (rule sign_bit_of_nat)
    moreover have "dec_toNumber x = of_nat bits" using r False by simp
    ultimately show ?thesis by simp
  qed
qed

lemma dec_toNumber_exact:
  assumes c: "0 \<le> coefficient x" and f: "isFinite w" and s: "\<not> sign_bit w"
    and v: "dec_value x = binary64_value w"
  shows "dec_toNumber x = w"
proof -
  define n where "n = nat (coefficient x)"
  define d :: nat where "d = 10 ^ scale x"
  define E where "E = biased_exponent w"
  define M where "M = fraction_bits w"
  define sig where "sig = (if E = 0 then M else 2 ^ 52 + M)"
  define ex where "ex = (if E = 0 then 1 else E)"
  have d: "0 < d" by (simp add: d_def)
  have E: "E < 2047" using f biased_exponent_lt [of w] by (simp add: isFinite_def E_def)
  have M: "M < 2 ^ 52" using fraction_bits_lt [of w] by (simp add: M_def)
  have q: "real n / real d = real sig * 2 powi (int ex - 1075)"
    using v binary64_value_significand [OF s] dec_value_nat [OF c]
    by (simp only: n_def d_def sig_def ex_def E_def M_def)
  have w: "(of_nat (E * 2 ^ 52 + M) :: float64) = w"
    unfolding E_def M_def using s by (rule word_of_fields)
  show ?thesis
  proof (cases "sig = 0")
    case True
    then have "E = 0" "M = 0" by (simp_all add: sig_def split: if_splits)
    then have "w = 0" using w by simp
    moreover have "real n = 0" using q True d by simp
    then have "coefficient x = 0" using c by (simp add: n_def)
    ultimately show ?thesis by (simp add: dec_toNumber_zero)
  next
    case False
    then have sig: "0 < sig" by simp
    have "0 < real sig * 2 powi (int ex - 1075)" using sig by simp
    then have "0 < real n / real d" by (simp only: q)
    then have n: "0 < n" using d by (simp add: zero_less_divide_iff)
    have ex: "1 \<le> ex" by (simp add: ex_def)
    have rng: "(ex = 1 \<and> sig < 2 ^ 52) \<or> (2 ^ 52 \<le> sig \<and> sig < 2 ^ 53)"
      using M by (simp add: ex_def sig_def)
    define e where "e = max (floor_log2 n d) (- 1022)"
    define m where "m = (if e \<le> 52 then round_half_even (n * 2 ^ nat (52 - e)) d
              else round_half_even n (d * 2 ^ nat (e - 52)))"
    define bits where "bits = nat (e + 1022) * 2 ^ 52 + m"
    have e: "e = int ex - 1023"
      unfolding e_def using n d ex q rng by (rule toNumber_exponent)
    have "real n / real d = real sig * 2 powi (e - 52)"
      using q by (simp add: e)
    then have m: "m = sig"
      unfolding m_def using d by (intro toNumber_significand)
    have "nat (e + 1022) = ex - 1" using ex by (simp add: e)
    then have bits: "bits = E * 2 ^ 52 + M"
    proof (cases "E = 0")
      case True
      with \<open>nat (e + 1022) = ex - 1\<close> show ?thesis
        unfolding bits_def m by (simp add: ex_def sig_def)
    next
      case False
      then obtain E' where "E = Suc E'" by (cases E) simp_all
      with \<open>nat (e + 1022) = ex - 1\<close> show ?thesis
        unfolding bits_def m by (simp add: ex_def sig_def)
    qed
    have "E * 2 ^ 52 + M < 2047 * 2 ^ 52" using E M by simp
    then have "\<not> 2047 * 2 ^ 52 \<le> bits" by (simp only: bits not_le)
    moreover have "dec_toNumber x = (if 2047 * 2 ^ 52 \<le> bits then Infinity else of_nat bits)"
      using c n_def d_def n e_def m_def bits_def by (rule dec_toNumber_eq)
    ultimately have "dec_toNumber x = of_nat bits" by simp
    then show ?thesis by (simp only: bits w)
  qed
qed

lemma dec_toNumber_overflow:
  assumes c: "0 \<le> coefficient x" and v: "2 powi K \<le> dec_value x" and K: "1024 \<le> K"
  shows "dec_toNumber x = Infinity"
proof -
  define n where "n = nat (coefficient x)"
  define d :: nat where "d = 10 ^ scale x"
  define e where "e = max (floor_log2 n d) (- 1022)"
  define m where "m = (if e \<le> 52 then round_half_even (n * 2 ^ nat (52 - e)) d
              else round_half_even n (d * 2 ^ nat (e - 52)))"
  define bits where "bits = nat (e + 1022) * 2 ^ 52 + m"
  define k where "k = nat (e - 52)"
  have d: "0 < d" by (simp add: d_def)
  have q: "2 powi K \<le> real n / real d"
    using v unfolding dec_value_nat [OF c] n_def d_def .
  have "0 < (2 :: real) powi K" by simp
  then have "0 < real n / real d" using q by (rule less_le_trans)
  then have n: "0 < n" using d by (simp add: zero_less_divide_iff)
  have fl: "2 powi (floor_log2 n d) \<le> real n / real d" "real n / real d < 2 powi (floor_log2 n d + 1)"
    using floor_log2_bounds [OF n d] by simp_all
  have "K \<le> floor_log2 n d" using q fl(2) by (rule powi_le_imp_le)
  then have "1024 \<le> floor_log2 n d" using K by simp
  then have e: "e = floor_log2 n d" "1024 \<le> e" by (simp_all add: e_def)
  then have ek: "e = int k + 52" by (simp add: k_def)
  have "(2 :: real) powi e = 2 ^ 52 * 2 ^ k"
    unfolding ek by (simp add: power_int_add mult.commute)
  then have "2 ^ 52 * 2 ^ k \<le> real n / real d" using fl(1) e(1) by simp
  then have "2 ^ 52 * 2 ^ k * real d \<le> real n" using d by (simp add: pos_le_divide_eq)
  then have "real (2 ^ 52 * (d * 2 ^ k)) \<le> real n" by (simp add: mult_ac)
  then have "2 ^ 52 * (d * 2 ^ k) \<le> n" by (simp only: of_nat_le_iff)
  then have "2 ^ 52 \<le> n div (d * 2 ^ k)"
    using d by (simp add: less_eq_div_iff_mult_less_eq)
  also have "n div (d * 2 ^ k) \<le> round_half_even n (d * 2 ^ k)" by (rule round_half_even_ge)
  also have "round_half_even n (d * 2 ^ k) = m" using e(2) by (simp add: m_def k_def)
  finally have m: "2 ^ 52 \<le> m" .
  have "2046 \<le> nat (e + 1022)" using e(2) by simp
  then have "2046 * 2 ^ 52 \<le> nat (e + 1022) * 2 ^ 52" by (simp only: mult_le_mono1)
  then have "2047 * 2 ^ 52 \<le> bits" using m by (simp add: bits_def)
  moreover have "dec_toNumber x = (if 2047 * 2 ^ 52 \<le> bits then Infinity else of_nat bits)"
    using c n_def d_def n e_def m_def bits_def by (rule dec_toNumber_eq)
  ultimately show ?thesis by simp
qed

section \<open>Rendering and reading decimals; the round trip\<close>

lemma isFinite_negate: "isFinite (negate w) = isFinite w"
  by (simp add: isFinite_def biased_exponent_negate)

lemma isNaN_negate: "isNaN (negate w) = isNaN w"
  by (simp add: isNaN_def biased_exponent_negate fraction_bits_negate)

lemma binary64_value_negate: "binary64_value (negate w) = - binary64_value w"
  by (simp add: binary64_value_def biased_exponent_negate fraction_bits_negate sign_bit_negate)

lemma binary64_value_nonneg: "\<not> sign_bit w \<Longrightarrow> 0 \<le> binary64_value w"
  by (simp add: binary64_value_def)

lemma sign_bit_minus_zero: "sign_bit minus_zero"
  by (simp add: sign_bit_def minus_zero_def)

lemma isFinite_not_NaN: "isFinite w \<Longrightarrow> \<not> isNaN w"
  by (simp add: isFinite_def isNaN_def)

lemma isNegative_iff:
  "isFinite w \<Longrightarrow> (less_than_zero w \<or> w = minus_zero) = sign_bit w"
  using sign_bit_minus_zero by (auto simp add: less_than_zero_def isFinite_not_NaN)

lemma nat_of_digits_append:
  "nat_of_digits (xs @ ys) = nat_of_digits xs * 10 ^ length ys + nat_of_digits ys"
proof (induction ys rule: rev_induct)
  case Nil
  show ?case by (simp add: nat_of_digits_def)
next
  case (snoc y ys)
  have "nat_of_digits (xs @ ys @ [y]) = 10 * nat_of_digits (xs @ ys) + digit_val y"
    by (simp add: nat_of_digits_def)
  moreover have "nat_of_digits (ys @ [y]) = 10 * nat_of_digits ys + digit_val y"
    by (simp add: nat_of_digits_def)
  ultimately show ?case using snoc by (simp add: algebra_simps)
qed

lemma digit_cases: "d < 10 \<Longrightarrow> (d :: nat) \<in> {0, 1, 2, 3, 4, 5, 6, 7, 8, 9}"
  by auto

lemma digit_val_digit_char: "d < 10 \<Longrightarrow> digit_val (digit_char d) = d"
  using digit_cases [of d] by (auto simp add: digit_val_def digit_char_def)

lemma is_digit_digit_char: "d < 10 \<Longrightarrow> is_digit (digit_char d)"
  using digit_cases [of d] by (auto simp add: is_digit_def digit_char_def)

lemma digit_char_eq_zero: "d < 10 \<Longrightarrow> digit_char d = CHR ''0'' \<longleftrightarrow> d = 0"
  using digit_cases [of d] by (auto simp add: digit_char_def)

lemma nat_of_digits_single: "nat_of_digits [c] = digit_val c"
  by (simp add: nat_of_digits_def)

lemma nat_of_digits_digits_of_nat: "nat_of_digits (digits_of_nat n) = n"
proof (induction n rule: digits_of_nat.induct)
  case (1 n)
  show ?case
  proof (cases "n < 10")
    case True
    then show ?thesis
      by (subst digits_of_nat.simps) (simp add: nat_of_digits_single digit_val_digit_char)
  next
    case False
    then have "nat_of_digits (digits_of_nat (n div 10)) = n div 10" using 1 by simp
    then show ?thesis using False
      by (subst digits_of_nat.simps)
        (simp add: nat_of_digits_append nat_of_digits_single digit_val_digit_char)
  qed
qed

lemma list_all_digits_of_nat: "list_all is_digit (digits_of_nat n)"
proof (induction n rule: digits_of_nat.induct)
  case (1 n)
  show ?case
  proof (cases "n < 10")
    case True
    then show ?thesis by (subst digits_of_nat.simps) (simp add: is_digit_digit_char)
  next
    case False
    then show ?thesis using 1 by (subst digits_of_nat.simps) (simp add: is_digit_digit_char)
  qed
qed

lemma digits_of_nat_Cons: "\<exists>c cs. digits_of_nat n = c # cs \<and> (c = CHR ''0'' \<longrightarrow> n = 0 \<and> cs = [])"
proof (induction n rule: digits_of_nat.induct)
  case (1 n)
  show ?case
  proof (cases "n < 10")
    case True
    then show ?thesis by (subst digits_of_nat.simps) (simp add: digit_char_eq_zero)
  next
    case False
    then obtain c cs where c: "digits_of_nat (n div 10) = c # cs"
      "c = CHR ''0'' \<longrightarrow> n div 10 = 0 \<and> cs = []"
      using 1 by blast
    have "n div 10 \<noteq> 0" using False by simp
    with c have "c \<noteq> CHR ''0''" by blast
    then show ?thesis using False c(1) by (subst digits_of_nat.simps) simp
  qed
qed

lemma integer_part_digits_of_nat: "integer_part (digits_of_nat n)"
proof -
  obtain c cs where c: "digits_of_nat n = c # cs" "c = CHR ''0'' \<longrightarrow> n = 0 \<and> cs = []"
    using digits_of_nat_Cons [of n] by blast
  have a: "list_all is_digit (c # cs)" using list_all_digits_of_nat [of n] by (simp only: c(1))
  show ?thesis
  proof (cases "c = CHR ''0''")
    case True
    then show ?thesis using c by (simp add: integer_part_def)
  next
    case False
    then have "c \<in> set ''123456789''" using a by (auto simp add: is_digit_def)
    then show ?thesis using a unfolding integer_part_def c(1) by (intro disjI2 exI [of _ c] exI [of _ cs]) simp
  qed
qed


lemma length_fixed_digits: "length (fixed_digits k f) = k"
  by (induction k arbitrary: f) simp_all

lemma list_all_fixed_digits: "list_all is_digit (fixed_digits k f)"
  by (induction k arbitrary: f) (simp_all add: is_digit_digit_char)

lemma nat_of_digits_fixed_digits: "nat_of_digits (fixed_digits k f) = f mod 10 ^ k"
proof (induction k arbitrary: f)
  case 0
  show ?case by (simp add: nat_of_digits_def)
next
  case (Suc k)
  have "f mod (10 * 10 ^ k) = 10 * (f div 10 mod 10 ^ k) + f mod 10"
    by (rule mod_mult2_eq)
  then show ?case
    using Suc [of "f div 10"]
    by (simp add: nat_of_digits_append nat_of_digits_single digit_val_digit_char)
qed

lemma nat_of_digits_zeros: "nat_of_digits (replicate z CHR ''0'') = 0"
proof (induction z)
  case 0
  show ?case by (simp add: nat_of_digits_def)
next
  case (Suc z)
  have "replicate (Suc z) CHR ''0'' = replicate z CHR ''0'' @ [CHR ''0'']"
    by (simp add: replicate_append_same)
  then show ?case using Suc
    by (simp only: nat_of_digits_append nat_of_digits_single) (simp add: digit_val_def)
qed

lemma strip_trailing_zeros_decomp:
  "\<exists>z. xs = strip_trailing_zeros xs @ replicate z CHR ''0''"
proof -
  let ?P = "\<lambda>c. c = CHR ''0''"
  have "rev xs = takeWhile ?P (rev xs) @ dropWhile ?P (rev xs)" by simp
  then have "xs = rev (dropWhile ?P (rev xs)) @ rev (takeWhile ?P (rev xs))"
    by (metis rev_append rev_rev_ident)
  moreover have "takeWhile ?P (rev xs) = replicate (length (takeWhile ?P (rev xs))) CHR ''0''"
    by (rule replicate_eqI) (auto dest: set_takeWhileD)
  ultimately show ?thesis
    unfolding strip_trailing_zeros_def by (metis rev_replicate)
qed

lemma list_all_strip: "list_all P xs \<Longrightarrow> list_all P (strip_trailing_zeros xs)"
  unfolding strip_trailing_zeros_def list_all_iff by (auto dest: set_dropWhileD)

lemma fraction_digits_value:
  assumes "f < 10 ^ s"
  defines "fp \<equiv> strip_trailing_zeros (fixed_digits s f)"
  shows "real (nat_of_digits fp) / 10 ^ length fp = real f / 10 ^ s"
proof -
  obtain z where z: "fixed_digits s f = fp @ replicate z CHR ''0''"
    unfolding fp_def using strip_trailing_zeros_decomp by blast
  have "nat_of_digits (fixed_digits s f) = f"
    using assms(1) by (simp add: nat_of_digits_fixed_digits)
  then have f: "f = nat_of_digits fp * 10 ^ z"
    unfolding z by (simp add: nat_of_digits_append nat_of_digits_zeros)
  have "length (fixed_digits s f) = s" by (rule length_fixed_digits)
  then have s: "s = length fp + z" unfolding z by simp
  show ?thesis
    by (subst f, subst s) (simp add: power_add)
qed

lemma takeWhile_digits_stop:
  assumes "list_all is_digit xs" and "ys = [] \<or> \<not> is_digit (hd ys)"
  shows "takeWhile is_digit (xs @ ys) = xs" and "dropWhile is_digit (xs @ ys) = ys"
proof -
  have t: "takeWhile is_digit ys = []" and d: "dropWhile is_digit ys = ys"
    using assms(2) by (cases ys; simp)+
  have a: "\<And>x. x \<in> set xs \<Longrightarrow> is_digit x" using assms(1) by (simp add: list_all_iff)
  show "takeWhile is_digit (xs @ ys) = xs" using a t by (simp add: takeWhile_append2)
  show "dropWhile is_digit (xs @ ys) = ys" using a d by (simp add: dropWhile_append2)
qed

lemma not_digit_point: "\<not> is_digit CHR ''.''"
  by (simp add: is_digit_def)

lemma Decimal_of_string_plain:
  assumes "list_all is_digit ip" and "list_all is_digit fp"
  shows "dec_value (Decimal_of_string (ip @ (if fp = [] then [] else CHR ''.'' # fp))) =
           real (nat_of_digits ip) + real (nat_of_digits fp) / 10 ^ length fp"
proof (cases "fp = []")
  case True
  have a: "takeWhile is_digit ip = ip" "dropWhile is_digit ip = []"
    using takeWhile_digits_stop [OF assms(1), of "[]"] by simp_all
  have "Decimal_of_string ip = \<lparr>coefficient = int (nat_of_digits ip), scale = 0\<rparr>"
    by (simp add: Decimal_of_string_def Let_def a exponent_of_string_def)
  then show ?thesis using True
    by (simp add: dec_value_def nat_of_digits_def)
next
  case False
  have a: "takeWhile is_digit (ip @ CHR ''.'' # fp) = ip"
    "dropWhile is_digit (ip @ CHR ''.'' # fp) = CHR ''.'' # fp"
    using takeWhile_digits_stop [OF assms(1), of "CHR ''.'' # fp"] not_digit_point by simp_all
  have b: "takeWhile is_digit fp = fp" "dropWhile is_digit fp = []"
    using takeWhile_digits_stop [OF assms(2), of "[]"] by simp_all
  have "Decimal_of_string (ip @ CHR ''.'' # fp) =
      \<lparr>coefficient = int (nat_of_digits (ip @ fp)), scale = length fp\<rparr>"
    using False by (simp add: Decimal_of_string_def Let_def a b exponent_of_string_def)
  then show ?thesis using False
    by (simp add: dec_value_def nat_of_digits_append add_divide_distrib)
qed

lemma coefficient_Decimal_of_string: "0 \<le> coefficient (Decimal_of_string s)"
  by (simp add: Decimal_of_string_def Let_def)

lemma dec_toFixed_nonneg:
  assumes "0 \<le> coefficient x"
  shows "dec_toFixed x =
     digits_of_nat (nat (coefficient x) div 10 ^ scale x) @
     (if strip_trailing_zeros (fixed_digits (scale x) (nat (coefficient x) mod 10 ^ scale x)) = [] then []
      else CHR ''.'' # strip_trailing_zeros (fixed_digits (scale x) (nat (coefficient x) mod 10 ^ scale x)))"
  using assms by (simp add: dec_toFixed_def Let_def)

lemma dec_value_toFixed:
  assumes "0 \<le> coefficient x"
  shows "dec_value (Decimal_of_string (dec_toFixed x)) = dec_value x"
proof -
  define a where "a = nat (coefficient x)"
  define s where "s = scale x"
  define A where "A = a div 10 ^ s"
  define B where "B = a mod 10 ^ s"
  define fp where "fp = strip_trailing_zeros (fixed_digits s B)"
  have B: "B < 10 ^ s" by (simp add: B_def)
  have "dec_toFixed x = digits_of_nat A @ (if fp = [] then [] else CHR ''.'' # fp)"
    unfolding dec_toFixed_nonneg [OF assms] a_def s_def A_def B_def fp_def ..
  moreover have "list_all is_digit (digits_of_nat A)" by (rule list_all_digits_of_nat)
  moreover have "list_all is_digit fp"
    unfolding fp_def by (intro list_all_strip list_all_fixed_digits)
  ultimately have "dec_value (Decimal_of_string (dec_toFixed x)) =
      real (nat_of_digits (digits_of_nat A)) + real (nat_of_digits fp) / 10 ^ length fp"
    by (simp only: Decimal_of_string_plain)
  also have "\<dots> = real A + real B / 10 ^ s"
    using fraction_digits_value [OF B] by (simp add: nat_of_digits_digits_of_nat fp_def)
  also have "\<dots> = real (A * 10 ^ s + B) / 10 ^ s"
    by (simp add: add_divide_distrib)
  also have "A * 10 ^ s + B = a" unfolding A_def B_def by (rule div_mult_mod_eq)
  finally show ?thesis using assms by (simp add: dec_value_def a_def s_def)
qed


lemma dec_toFixed_shape:
  assumes "0 \<le> coefficient x"
  shows "\<exists>ip fp. dec_toFixed x = ip @ fp \<and> integer_part ip \<and> (fp = [] \<or> fraction_part fp)"
proof -
  define ip where "ip = digits_of_nat (nat (coefficient x) div 10 ^ scale x)"
  define ds where "ds = strip_trailing_zeros (fixed_digits (scale x) (nat (coefficient x) mod 10 ^ scale x))"
  define fp where "fp = (if ds = [] then [] else CHR ''.'' # ds)"
  have "dec_toFixed x = ip @ fp"
    unfolding dec_toFixed_nonneg [OF assms] ip_def ds_def fp_def ..
  moreover have "integer_part ip" unfolding ip_def by (rule integer_part_digits_of_nat)
  moreover have "list_all is_digit ds"
    unfolding ds_def by (intro list_all_strip list_all_fixed_digits)
  then have "fp = [] \<or> fraction_part fp"
    by (simp add: fp_def fraction_part_def)
  ultimately show ?thesis by blast
qed

lemma integer_part_hd: "integer_part ip \<Longrightarrow> \<exists>c cs. ip = c # cs \<and> is_digit c"
  by (auto simp add: integer_part_def is_digit_def)

lemma dec_toFixed_hd:
  assumes "0 \<le> coefficient x"
  shows "\<exists>c cs. dec_toFixed x = c # cs \<and> is_digit c"
proof -
  obtain ip fp where a: "dec_toFixed x = ip @ fp" "integer_part ip"
    using dec_toFixed_shape [OF assms] by blast
  then obtain c cs where "ip = c # cs" "is_digit c" using integer_part_hd by blast
  with a(1) show ?thesis by simp
qed

lemma decimal_literal_toFixed:
  assumes "0 \<le> coefficient x" and that: "sg = [] \<or> sg = ''-''"
  shows "decimal_literal (sg @ dec_toFixed x)"
proof -
  obtain ip fp where a: "dec_toFixed x = ip @ fp" "integer_part ip" "fp = [] \<or> fraction_part fp"
    using dec_toFixed_shape [OF assms(1)] by blast
  have "sg @ dec_toFixed x = sg @ ip @ fp @ []" using a(1) by simp
  then show ?thesis
    unfolding decimal_literal_def using a(2,3) that by blast
qed

lemma special_not_literal:
  "\<not> decimal_literal ''NaN''" "\<not> decimal_literal ''Infinity''" "\<not> decimal_literal ''-Infinity''"
  unfolding regex_test_numeric [symmetric]
  by (simp_all add: numeric_regex_def Opt_def Plus_def)

lemma parse_literal:
  assumes "decimal_literal s"
  shows "parse [JSString s] =
     (let isNegative = startsWith_minus s;
          u = (if isNegative then drop 1 s else s);
          p = dec_toNumber (Decimal_of_string u)
      in if \<not> isFinite p then Inl (MagnitudeError u)
         else if dec_value (getExactDecimal p) \<noteq> dec_value (Decimal_of_string u)
           then Inl (PrecisionLossError u (dec_toFixed (getExactDecimal p)))
           else Inr (if isNegative then negate p else p))"
proof -
  have "s \<noteq> ''NaN''" "s \<noteq> ''Infinity''" "s \<noteq> ''-Infinity''"
    using assms special_not_literal by auto
  moreover have "regex_test numeric_regex s" using assms by (simp only: regex_test_numeric)
  ultimately show ?thesis
    by (simp add: parse_def Let_def dec_equals_iff)
qed

lemma coefficient_getExactDecimal_nonneg: "0 \<le> coefficient (getExactDecimal w)"
  by (simp add: getExactDecimal_def exactDecimal_of_bits_def dec_times_def fraction_of_bits_def
      power_of_bits_def dec_plus_def dec_dividedBy_pow2_def Decimal_of_int_def decodeFloat_eq
      coefficient_two_toPower)

lemma parse_toFixed:
  assumes f: "isFinite p" and s: "\<not> sign_bit p"
  shows "parse [JSString (dec_toFixed (getExactDecimal p))] = Inr p"
    and "parse [JSString (CHR ''-'' # dec_toFixed (getExactDecimal p))] = Inr (negate p)"
proof -
  define t where "t = dec_toFixed (getExactDecimal p)"
  have c: "0 \<le> coefficient (getExactDecimal p)" by (rule coefficient_getExactDecimal_nonneg)
  obtain a as where hd: "t = a # as" "is_digit a"
    unfolding t_def using dec_toFixed_hd [OF c] by blast
  then have "a \<noteq> CHR ''-''" by (auto simp add: is_digit_def)
  then have m: "\<not> startsWith_minus t" "startsWith_minus (CHR ''-'' # t)"
    by (simp_all add: startsWith_minus_def hd(1))
  have "dec_value (Decimal_of_string t) = dec_value (getExactDecimal p)"
    unfolding t_def using c by (rule dec_value_toFixed)
  also have "\<dots> = binary64_value p"
    using binary64_value_nonneg [OF s] by (simp add: dec_value_getExactDecimal)
  finally have v: "dec_value (Decimal_of_string t) = binary64_value p" .
  have n: "dec_toNumber (Decimal_of_string t) = p"
    using coefficient_Decimal_of_string f s v by (rule dec_toNumber_exact)
  have e: "dec_value (getExactDecimal p) = dec_value (Decimal_of_string t)"
    using v binary64_value_nonneg [OF s] by (simp add: dec_value_getExactDecimal)
  have l1: "decimal_literal t"
    using decimal_literal_toFixed [OF c, of "[]"] by (simp add: t_def)
  have l2: "decimal_literal (CHR ''-'' # t)"
    using decimal_literal_toFixed [OF c, of "''-''"] by (simp add: t_def)
  show "parse [JSString (dec_toFixed (getExactDecimal p))] = Inr p"
    unfolding t_def [symmetric] parse_literal [OF l1] using m(1) n f e by (simp add: Let_def)
  show "parse [JSString (CHR ''-'' # dec_toFixed (getExactDecimal p))] = Inr (negate p)"
    unfolding t_def [symmetric] parse_literal [OF l2] using m(2) n f e by (simp add: Let_def)
qed

lemma not_isFinite_Infinity: "\<not> isFinite Infinity" "\<not> isFinite (negate Infinity)"
proof -
  show "\<not> isFinite Infinity" by (simp add: isFinite_def biased_exponent_def Infinity_def)
  then show "\<not> isFinite (negate Infinity)" by (simp add: isFinite_negate)
qed

lemma stringify_finite:
  assumes "isFinite x"
  shows "stringify [JSNumber x] =
     Inr (if sign_bit x then CHR ''-'' # dec_toFixed (getExactDecimal (negate x))
          else dec_toFixed (getExactDecimal x))"
proof -
  have "\<not> isNaN x" using assms by (rule isFinite_not_NaN)
  moreover have "x \<noteq> Infinity" "x \<noteq> negate Infinity"
    using assms not_isFinite_Infinity by auto
  moreover note isNegative_iff [OF assms]
  ultimately show ?thesis by (simp add: stringify_def Let_def)
qed

lemma parse_stringify:
  assumes "isFinite x"
  shows "\<exists>s. stringify [JSNumber x] = Inr s \<and> parse [JSString s] = Inr x"
proof (cases "sign_bit x")
  case True
  have "isFinite (negate x)" "\<not> sign_bit (negate x)"
    using assms True by (simp_all add: isFinite_negate sign_bit_negate)
  then have "parse [JSString (CHR ''-'' # dec_toFixed (getExactDecimal (negate x)))] = Inr (negate (negate x))"
    by (rule parse_toFixed(2))
  then show ?thesis using True by (simp add: stringify_finite [OF assms] negate_negate)
next
  case False
  with assms have "parse [JSString (dec_toFixed (getExactDecimal x))] = Inr x"
    by (rule parse_toFixed(1))
  then show ?thesis using False by (simp add: stringify_finite [OF assms])
qed

end
